theory Spec2Isabelle
  imports Main "HOL-Library.Sublist" "HOL-Library.Multiset" "HOL-Library.List_Lexorder"
    "HOL-Library.Char_ord"
begin

section \<open>Strings\<close>

text \<open>
  JavaScript strings are modelled as \<^typ>\<open>string\<close> (lists of \<^typ>\<open>char\<close>). Every
  character the service inspects (\<open>/\<close>, \<open>\\<close>, \<open>.\<close>, \<open>#\<close>, \<open>-\<close>, digits, white space)
  is ASCII; the box-drawing characters of the renderer are written as their UTF-8 bytes.
\<close>

definition startsWith :: "string \<Rightarrow> string \<Rightarrow> bool" where
  "startsWith s p = prefix p s"

definition endsWith :: "string \<Rightarrow> string \<Rightarrow> bool" where
  "endsWith s p = suffix p s"

text \<open>\<open>s.includes(p)\<close>: \<open>p\<close> occurs in \<open>s\<close> as a contiguous substring.\<close>

fun includes_str :: "string \<Rightarrow> string \<Rightarrow> bool" where
  "includes_str [] p = (p = [])"
| "includes_str (x # xs) p = (prefix p (x # xs) \<or> includes_str xs p)"

text \<open>\<open>s.split(c)\<close> for a one-character separator; the result is never empty
  (\<open>"".split("/")\<close> is \<open>[""]\<close>).\<close>

fun split_on :: "char \<Rightarrow> string \<Rightarrow> string list" where
  "split_on c [] = [[]]"
| "split_on c (x # xs) =
     (if x = c then [] # split_on c xs
      else (case split_on c xs of
              [] \<Rightarrow> [[x]]
            | s # ss \<Rightarrow> (x # s) # ss))"

text \<open>\<open>filePath.replace(/\\/g, '/')\<close>.\<close>

definition normalizePath :: "string \<Rightarrow> string" where
  "normalizePath filePath = map (\<lambda>ch. if ch = CHR 0x5C then CHR ''/'' else ch) filePath"

section \<open>Pattern matcher (\<open>createIgnoreInstance\<close>)\<close>

definition defaultIgnores :: "string list" where
  "defaultIgnores = [''.git'', ''.DS_Store'', ''node_modules'']"

text \<open>The callback handed to \<open>allIgnores.some\<close>, on the already normalized path.\<close>

definition patternMatches :: "string \<Rightarrow> string \<Rightarrow> bool" where
  "patternMatches normalizedPath pattern =
     (if endsWith pattern ''/**'' then
        (let dir = take (length pattern - 3) pattern
         in startsWith normalizedPath (dir @ ''/'') \<or> normalizedPath = dir)
      else if CHR ''/'' \<in> set pattern then includes_str normalizedPath pattern
      else pattern \<in> set (split_on CHR ''/'' normalizedPath))"

text \<open>\<open>Array.prototype.some\<close>: left to right, stopping at the first hit.\<close>

fun some :: "('a \<Rightarrow> bool) \<Rightarrow> 'a list \<Rightarrow> bool" where
  "some f [] = False"
| "some f (x # xs) = (if f x then True else some f xs)"

definition ignores :: "string list \<Rightarrow> string \<Rightarrow> bool" where
  "ignores allIgnores filePath =
     (let normalizedPath = normalizePath filePath
      in some (patternMatches normalizedPath) allIgnores)"

subsection \<open>The matching rule in the words of the specification\<close>

text \<open>The \<open>/\<close>-delimited segments of a path: maximal runs without a slash.\<close>

definition is_segment :: "string \<Rightarrow> string \<Rightarrow> bool" where
  "is_segment seg p \<longleftrightarrow>
     CHR ''/'' \<notin> set seg \<and>
     (\<exists>a b. p = a @ seg @ b \<and> (a = [] \<or> last a = CHR ''/'') \<and> (b = [] \<or> hd b = CHR ''/''))"

definition spec_rule :: "string \<Rightarrow> string \<Rightarrow> bool" where
  "spec_rule pattern p =
     (if suffix ''/**'' pattern then
        (\<exists>pre. pattern = pre @ ''/**'' \<and> (p = pre \<or> prefix (pre @ ''/'') p))
      else if CHR ''/'' \<in> set pattern then (\<exists>a b. p = a @ pattern @ b)
      else is_segment pattern p)"

section \<open>Path library and file system\<close>

text \<open>
  \<open>path.join\<close>, \<open>path.relative\<close> and \<open>path.basename\<close> of Node, on the arguments the service
  gives them: \<open>dir\<close> is a resolved absolute path (no trailing slash unless it is the root)
  and \<open>nm\<close> a directory entry's name. \<open>path_relative\<close> strips the base directory and one
  separator from a path below it; a path that is not below \<open>from\<close> (none arises in a scan
  started by \<open>generateTree\<close>) is returned unchanged.
\<close>

definition path_join :: "string \<Rightarrow> string \<Rightarrow> string" where
  "path_join dir nm = (if dir = ''/'' then dir @ nm else dir @ ''/'' @ nm)"

definition path_relative :: "string \<Rightarrow> string \<Rightarrow> string" where
  "path_relative from to =
     (let pre = (if from = ''/'' then from else from @ ''/'')
      in if prefix pre to then drop (length pre) to else to)"

definition path_basename :: "string \<Rightarrow> string" where
  "path_basename p = last (split_on CHR ''/'' p)"

text \<open>
  The file system below a path, as the \<open>fs\<close> calls of the service see it. A file carries
  its content (\<open>None\<close>: \<open>readFileSync\<close> throws). A directory carries whether \<open>readdirSync\<close>
  succeeds on it and its entries in the order \<open>readdirSync\<close> returns them. Anything that
  is not a directory (\<open>Dirent.isDirectory()\<close> is false) counts as a file.
\<close>

datatype fsnode = FsFile "string option" | FsDir bool "(string \<times> fsnode) list"

text \<open>
  What the process sees outside the service: \<open>path.resolve\<close> (it depends on the working
  directory), the file system entry at an absolute path (\<open>None\<close>: \<open>existsSync\<close> is false),
  and \<open>String.prototype.localeCompare\<close>.
\<close>

record world =
  resolve :: "string \<Rightarrow> string"
  lookup :: "string \<Rightarrow> fsnode option"
  localeCompare :: "string \<Rightarrow> string \<Rightarrow> int"

text \<open>The file system calls a scan makes, in order.\<close>

datatype fs_event = ReadDir string | IgnoreQuery string

section \<open>Data model\<close>

record GtreeOptions =
  maxDepth :: "int option"
  showHidden :: "bool option"
  excludeGit :: "bool option"
  baseDirectory :: "string option"

datatype FileNode =
  FileNode (name: string) (path: string) (isDirectory: bool)
    (children: "FileNode list option") (level: nat)

section \<open>\<open>createIgnoreInstance\<close>: reading \<open>.gitignore\<close>\<close>

text \<open>The white space and line terminators of the ASCII range, which \<open>trim\<close> and
  \<open>parseInt\<close> strip: tab, line feed, vertical tab, form feed, carriage return, space.\<close>

definition isWhiteSpace :: "char \<Rightarrow> bool" where
  "isWhiteSpace ch \<longleftrightarrow> ch \<in> set [CHR 0x09, CHR 0x0A, CHR 0x0B, CHR 0x0C, CHR 0x0D, CHR 0x20]"

definition trim :: "string \<Rightarrow> string" where
  "trim s = rev (dropWhile isWhiteSpace (rev (dropWhile isWhiteSpace s)))"

text \<open>The lines kept from \<open>.gitignore\<close> in the directory found at \<open>baseDir\<close>; none when the
  file is missing, is not a regular file or cannot be read (the \<open>catch\<close> branch).\<close>

definition gitignorePatterns :: "fsnode \<Rightarrow> string list" where
  "gitignorePatterns baseNode =
     (case baseNode of
        FsDir r entries \<Rightarrow>
          (case map_of entries ''.gitignore'' of
             Some (FsFile (Some gitignoreContent)) \<Rightarrow>
               filter (\<lambda>line. line \<noteq> [] \<and> \<not> startsWith line ''#'')
                 (map trim (split_on CHR 0x0A gitignoreContent))
           | _ \<Rightarrow> [])
      | _ \<Rightarrow> [])"

text \<open>The list \<open>allIgnores\<close> built for a base directory, and the object returned.\<close>

definition allIgnoresOf :: "fsnode \<Rightarrow> string list" where
  "allIgnoresOf baseNode = defaultIgnores @ gitignorePatterns baseNode"

definition createIgnoreInstance :: "fsnode \<Rightarrow> string \<Rightarrow> bool" where
  "createIgnoreInstance baseNode = ignores (allIgnoresOf baseNode)"

section \<open>Directory scanner (\<open>scanDirectory\<close>)\<close>

definition compareNodes :: "(string \<Rightarrow> string \<Rightarrow> int) \<Rightarrow> FileNode \<Rightarrow> FileNode \<Rightarrow> int" where
  "compareNodes lc a b =
     (if isDirectory a \<and> \<not> isDirectory b then - 1
      else if \<not> isDirectory a \<and> isDirectory b then 1
      else lc (name a) (name b))"

text \<open>
  \<open>Array.prototype.sort\<close> with a comparator is a stable sort; on a consistent comparator
  every stable sort returns the same array, here computed by insertion.
\<close>

fun insertBy :: "('a \<Rightarrow> 'a \<Rightarrow> int) \<Rightarrow> 'a \<Rightarrow> 'a list \<Rightarrow> 'a list" where
  "insertBy cmp x [] = [x]"
| "insertBy cmp x (y # ys) = (if cmp x y \<le> 0 then x # y # ys else y # insertBy cmp x ys)"

definition array_sort :: "('a \<Rightarrow> 'a \<Rightarrow> int) \<Rightarrow> 'a list \<Rightarrow> 'a list" where
  "array_sort cmp xs = foldr (insertBy cmp) xs []"

definition depthReached :: "GtreeOptions \<Rightarrow> nat \<Rightarrow> bool" where
  "depthReached options currentLevel =
     (case maxDepth options of None \<Rightarrow> False | Some m \<Rightarrow> m \<le> int currentLevel)"

definition baseOf :: "GtreeOptions \<Rightarrow> string" where
  "baseOf options =
     (case baseDirectory options of None \<Rightarrow> ''.'' | Some b \<Rightarrow> if b = [] then ''.'' else b)"

text \<open>
  \<open>scanDirectory\<close> takes the directory's path and the file system found there, and returns
  the nodes with the \<open>readdirSync\<close> and \<open>ig.ignores\<close> calls it made. \<open>scanEntries\<close> is its
  \<open>for\<close> loop over the entries, carrying \<open>items\<close>.
\<close>

fun scanDirectory ::
    "(string \<Rightarrow> string \<Rightarrow> int) \<Rightarrow> string \<Rightarrow> fsnode \<Rightarrow> GtreeOptions \<Rightarrow> (string \<Rightarrow> bool) \<Rightarrow> nat
     \<Rightarrow> FileNode list \<times> fs_event list"
  and scanEntries ::
    "(string \<Rightarrow> string \<Rightarrow> int) \<Rightarrow> string \<Rightarrow> (string \<times> fsnode) list \<Rightarrow> GtreeOptions
     \<Rightarrow> (string \<Rightarrow> bool) \<Rightarrow> nat \<Rightarrow> FileNode list \<times> fs_event list
     \<Rightarrow> FileNode list \<times> fs_event list"
  where
  "scanDirectory lc dirPath d options ig currentLevel =
     (if depthReached options currentLevel then ([], [])
      else
        (case (case d of
                 FsDir True entries \<Rightarrow>
                   scanEntries lc dirPath entries options ig currentLevel ([], [ReadDir dirPath])
               | _ \<Rightarrow> ([], [ReadDir dirPath])) of
           (items, tr) \<Rightarrow> (array_sort (compareNodes lc) items, tr)))"
| "scanEntries lc dirPath [] options ig currentLevel acc = acc"
| "scanEntries lc dirPath ((nm, t) # rest) options ig currentLevel (items, tr) =
     (let fullPath = path_join dirPath nm;
          relativePath = path_relative (baseOf options) fullPath
      in if showHidden options \<noteq> Some True \<and> startsWith nm ''.''
         then scanEntries lc dirPath rest options ig currentLevel (items, tr)
         else if ig relativePath
         then scanEntries lc dirPath rest options ig currentLevel
                (items, tr @ [IgnoreQuery relativePath])
         else
           (case t of
              FsDir r es \<Rightarrow>
                (case scanDirectory lc fullPath t options ig (currentLevel + 1) of
                   (cs, ctr) \<Rightarrow>
                     scanEntries lc dirPath rest options ig currentLevel
                       (items @ [FileNode nm relativePath True (Some cs) currentLevel],
                        tr @ [IgnoreQuery relativePath] @ ctr))
            | FsFile c \<Rightarrow>
                scanEntries lc dirPath rest options ig currentLevel
                  (items @ [FileNode nm relativePath False None currentLevel],
                   tr @ [IgnoreQuery relativePath])))"

section \<open>Tree renderer (\<open>formatTree\<close>)\<close>

definition NL :: string where
  "NL = [CHR 0x0A]"

text \<open>\<open>'|   '\<close>, \<open>'`-- '\<close> and \<open>'|-- '\<close> in box-drawing characters (U+2502, U+2514, U+2500,
  U+251C), and the four spaces under a last sibling.\<close>

definition VBAR :: string where
  "VBAR = [CHR 0xE2, CHR 0x94, CHR 0x82] @ ''   ''"

definition ELBOW :: string where
  "ELBOW = [CHR 0xE2, CHR 0x94, CHR 0x94, CHR 0xE2, CHR 0x94, CHR 0x80,
            CHR 0xE2, CHR 0x94, CHR 0x80] @ '' ''"

definition TEE :: string where
  "TEE = [CHR 0xE2, CHR 0x94, CHR 0x9C, CHR 0xE2, CHR 0x94, CHR 0x80,
          CHR 0xE2, CHR 0x94, CHR 0x80] @ '' ''"

definition SPACES :: string where
  "SPACES = ''    ''"

text \<open>The inner loop \<open>for (let j = 0; j < isLast.length; j++)\<close> building the prefix.\<close>

function prefixLoop :: "bool list \<Rightarrow> nat \<Rightarrow> string \<Rightarrow> string" where
  "prefixLoop isLast j pfx =
     (if j < length isLast
      then prefixLoop isLast (j + 1) (pfx @ (if isLast ! j then SPACES else VBAR))
      else pfx)"
  by pat_completeness auto
termination
  by (relation "measure (\<lambda>(isLast, j, pfx). length isLast - j)") auto

lemma size_nth_less: "i < length xs \<Longrightarrow> size (xs ! i) < Suc (size_list size xs)"
proof (induction xs arbitrary: i)
  case Nil
  then show ?case by simp
next
  case (Cons a xs)
  show ?case
  proof (cases i)
    case 0
    then show ?thesis by simp
  next
    case (Suc k)
    with Cons.prems have "k < length xs" by simp
    from Cons.IH [OF this] Suc show ?thesis by simp
  qed
qed

lemma size_children_less: "children n = Some cs \<Longrightarrow> size_list size cs < size n"
  by (cases n) auto

lemma size_children_nth:
  "i < length nodes \<Longrightarrow> children (nodes ! i) = Some cs
   \<Longrightarrow> size_list size cs < size_list size nodes"
  using size_nth_less [of i nodes] size_children_less [of "nodes ! i" cs] by simp

declare prefixLoop.simps [simp del]

text \<open>The outer loop \<open>for (let i = 0; i < nodes.length; i++)\<close>, carrying \<open>result\<close>.\<close>

function formatTreeLoop :: "FileNode list \<Rightarrow> bool list \<Rightarrow> nat \<Rightarrow> string \<Rightarrow> string" where
  "formatTreeLoop nodes isLast i result =
     (if i < length nodes then
        (let node = nodes ! i;
             isLastNode = (i = length nodes - 1);
             pfx = prefixLoop isLast 0 [] @ (if isLastNode then ELBOW else TEE);
             result1 = result @ pfx @ name node @ NL
         in (case children node of
               Some cs \<Rightarrow>
                 if length cs > 0
                 then formatTreeLoop nodes isLast (i + 1)
                        (result1 @ formatTreeLoop cs (isLast @ [isLastNode]) 0 [])
                 else formatTreeLoop nodes isLast (i + 1) result1
             | None \<Rightarrow> formatTreeLoop nodes isLast (i + 1) result1))
      else result)"
  by pat_completeness auto
termination
  apply (relation "(\<lambda>(nodes, isLast, i, result). size_list size nodes) <*mlex*>
                   measure (\<lambda>(nodes, isLast, i, result). length nodes - i)")
      apply (simp add: wf_mlex)
     apply (auto simp: mlex_prod_def size_children_nth)
  done

declare formatTreeLoop.simps [simp del]

definition formatTree :: "FileNode list \<Rightarrow> bool list \<Rightarrow> string" where
  "formatTree nodes isLast = formatTreeLoop nodes isLast 0 []"

subsection \<open>The renderer in the words of the specification\<close>

definition linePrefix :: "bool list \<Rightarrow> bool \<Rightarrow> string" where
  "linePrefix ancestors isLastSibling =
     concat (map (\<lambda>wasLast. if wasLast then SPACES else VBAR) ancestors)
     @ (if isLastSibling then ELBOW else TEE)"

text \<open>Depth first: a node's line, then its children under the flag list extended by
  the node's own flag, then its later siblings. A node is the last sibling when none
  follows it.\<close>

fun render :: "bool list \<Rightarrow> FileNode list \<Rightarrow> string" where
  "render ancestors [] = []"
| "render ancestors (FileNode nm p d cs l # siblings) =
     linePrefix ancestors (siblings = []) @ nm @ NL
     @ (case cs of None \<Rightarrow> [] | Some kids \<Rightarrow> render (ancestors @ [siblings = []]) kids)
     @ render ancestors siblings"

section \<open>\<open>generateTree\<close>\<close>

text \<open>The result is the returned string (\<open>Inr\<close>) or the message of the \<open>Error\<close> thrown
  (\<open>Inl\<close>), with the file system calls of the traversal.\<close>

definition generateTree ::
    "world \<Rightarrow> string \<Rightarrow> GtreeOptions \<Rightarrow> (string + string) \<times> fs_event list" where
  "generateTree w targetPath options =
     (let absolutePath = resolve w targetPath
      in case lookup w absolutePath of
           None \<Rightarrow> (Inl (''Path does not exist: '' @ targetPath), [])
         | Some (FsFile c) \<Rightarrow> (Inl (''Path is not a directory: '' @ targetPath), [])
         | Some (FsDir r es) \<Rightarrow>
             (let options' = options\<lparr>baseDirectory := Some absolutePath\<rparr>;
                  ig = createIgnoreInstance (FsDir r es)
              in case scanDirectory (localeCompare w) absolutePath (FsDir r es) options' ig 0 of
                   (nodes, tr) \<Rightarrow>
                     (let result = path_basename absolutePath @ NL
                      in (Inr (if length nodes > 0 then result @ formatTree nodes [] else result),
                          tr))))"

section \<open>Argument translator (\<open>parseTreeArgs\<close>)\<close>

text \<open>
  \<open>parseInt\<close> with no radix: leading white space, an optional sign, an optional \<open>0x\<close>
  prefix, then the longest run of digits; \<open>None\<close> is \<open>NaN\<close>. The value is the mathematical
  integer (JavaScript rounds it to a double beyond \<open>2^53\<close>).
\<close>

definition digitValue :: "char \<Rightarrow> nat option" where
  "digitValue ch =
     (let n = (of_char ch :: nat)
      in if 48 \<le> n \<and> n \<le> 57 then Some (n - 48)
         else if 97 \<le> n \<and> n \<le> 122 then Some (n - 87)
         else if 65 \<le> n \<and> n \<le> 90 then Some (n - 55)
         else None)"

definition isRadixDigit :: "nat \<Rightarrow> char \<Rightarrow> bool" where
  "isRadixDigit R ch = (case digitValue ch of Some v \<Rightarrow> v < R | None \<Rightarrow> False)"

definition digitsValue :: "nat \<Rightarrow> string \<Rightarrow> nat" where
  "digitsValue R Z = foldl (\<lambda>acc ch. acc * R + (case digitValue ch of Some v \<Rightarrow> v | None \<Rightarrow> 0)) 0 Z"

definition parseInt :: "string \<Rightarrow> int option" where
  "parseInt inputString =
     (let S = dropWhile isWhiteSpace inputString;
          sign = (if S \<noteq> [] \<and> hd S = CHR ''-'' then - 1 else 1 :: int);
          S1 = (if S \<noteq> [] \<and> (hd S = CHR ''+'' \<or> hd S = CHR ''-'') then tl S else S);
          hex = (take 2 S1 = ''0x'' \<or> take 2 S1 = ''0X'');
          R = (if hex then 16 else 10);
          S2 = (if hex then drop 2 S1 else S1);
          Z = takeWhile (isRadixDigit R) S2
      in if Z = [] then None else Some (sign * int (digitsValue R Z)))"

definition initialOptions :: GtreeOptions where
  "initialOptions =
     \<lparr>maxDepth = None, showHidden = Some False, excludeGit = Some True, baseDirectory = None\<rparr>"

text \<open>The \<open>for\<close> loop of \<open>parseTreeArgs\<close> over the index \<open>i\<close>, carrying \<open>targetPath\<close> and
  \<open>options\<close>; the returned object \<open>{ path, options }\<close> is the pair.\<close>

function parseTreeArgsLoop ::
    "string list \<Rightarrow> nat \<Rightarrow> string \<times> GtreeOptions \<Rightarrow> string \<times> GtreeOptions" where
  "parseTreeArgsLoop args i (targetPath, options) =
     (if i < length args then
        (let arg = args ! i
         in if arg = ''-L'' \<and> i + 1 < length args then
              (case parseInt (args ! (i + 1)) of
                 Some depth \<Rightarrow>
                   parseTreeArgsLoop args (i + 1 + 1) (targetPath, options\<lparr>maxDepth := Some depth\<rparr>)
               | None \<Rightarrow> parseTreeArgsLoop args (i + 1) (targetPath, options))
            else if arg = ''-a'' \<or> arg = ''--all'' then
              parseTreeArgsLoop args (i + 1) (targetPath, options\<lparr>showHidden := Some True\<rparr>)
            else if startsWith arg ''-L'' then
              (case parseInt (drop 2 arg) of
                 Some depth \<Rightarrow>
                   parseTreeArgsLoop args (i + 1) (targetPath, options\<lparr>maxDepth := Some depth\<rparr>)
               | None \<Rightarrow> parseTreeArgsLoop args (i + 1) (targetPath, options))
            else if \<not> startsWith arg ''-'' then
              parseTreeArgsLoop args (i + 1) (arg, options)
            else parseTreeArgsLoop args (i + 1) (targetPath, options))
      else (targetPath, options))"
  by pat_completeness auto
termination
  by (relation "measure (\<lambda>(args, i, st). length args - i)") auto

declare parseTreeArgsLoop.simps [simp del]

definition parseTreeArgs :: "string list \<Rightarrow> string \<times> GtreeOptions" where
  "parseTreeArgs args = parseTreeArgsLoop args 0 (''.'', initialOptions)"

subsection \<open>The translator as a walk over the token sequence\<close>

text \<open>
  The rules of the specification, one token at a time with the rest of the sequence as
  lookahead: \<open>-L n\<close> (both tokens consumed when \<open>n\<close> parses), \<open>-a\<close> and \<open>--all\<close>, \<open>-Ln\<close> in
  one token, a path, and any other flag ignored.
\<close>

fun translate :: "string list \<Rightarrow> string \<times> GtreeOptions \<Rightarrow> string \<times> GtreeOptions" where
  "translate [] st = st"
| "translate [tok] (p, opts) =
     (if tok = ''-a'' \<or> tok = ''--all'' then (p, opts\<lparr>showHidden := Some True\<rparr>)
      else if prefix ''-L'' tok then
        (case parseInt (drop 2 tok) of
           Some n \<Rightarrow> (p, opts\<lparr>maxDepth := Some n\<rparr>)
         | None \<Rightarrow> (p, opts))
      else if \<not> prefix ''-'' tok then (tok, opts)
      else (p, opts))"
| "translate (tok # nxt # toks) (p, opts) =
     (if tok = ''-L'' then
        (case parseInt nxt of
           Some n \<Rightarrow> translate toks (p, opts\<lparr>maxDepth := Some n\<rparr>)
         | None \<Rightarrow> translate (nxt # toks) (p, opts))
      else if tok = ''-a'' \<or> tok = ''--all'' then
        translate (nxt # toks) (p, opts\<lparr>showHidden := Some True\<rparr>)
      else if prefix ''-L'' tok then
        (case parseInt (drop 2 tok) of
           Some n \<Rightarrow> translate (nxt # toks) (p, opts\<lparr>maxDepth := Some n\<rparr>)
         | None \<Rightarrow> translate (nxt # toks) (p, opts))
      else if \<not> prefix ''-'' tok then translate (nxt # toks) (tok, opts)
      else translate (nxt # toks) (p, opts))"

section \<open>Vocabulary of the properties\<close>

text \<open>All nodes of a forest, at every depth, in depth-first order.\<close>

fun forest_nodes :: "FileNode list \<Rightarrow> FileNode list" where
  "forest_nodes [] = []"
| "forest_nodes (FileNode nm p d cs l # ns) =
     FileNode nm p d cs l # (case cs of None \<Rightarrow> [] | Some kids \<Rightarrow> forest_nodes kids)
     @ forest_nodes ns"

text \<open>For every node of a forest, the names on the way from a top-level node down to
  it: the position of the directory entry it stands for.\<close>

fun name_chains :: "FileNode list \<Rightarrow> string list list" where
  "name_chains [] = []"
| "name_chains (FileNode nm p d cs l # ns) =
     [nm] # map ((#) nm) (case cs of None \<Rightarrow> [] | Some kids \<Rightarrow> name_chains kids)
     @ name_chains ns"

text \<open>The relative path \<open>scanDirectory\<close> computes for the entry \<open>nm\<close> of \<open>dirPath\<close>.\<close>

definition relativeOf :: "GtreeOptions \<Rightarrow> string \<Rightarrow> string \<Rightarrow> string" where
  "relativeOf options dirPath nm = path_relative (baseOf options) (path_join dirPath nm)"

text \<open>What holds of every node \<open>scanDirectory\<close> builds.\<close>

definition emitted ::
    "(string \<Rightarrow> string \<Rightarrow> int) \<Rightarrow> GtreeOptions \<Rightarrow> (string \<Rightarrow> bool) \<Rightarrow> FileNode \<Rightarrow> bool" where
  "emitted lc options ig n \<longleftrightarrow>
     (showHidden options = Some True \<or> \<not> startsWith (name n) ''.'') \<and>
     (\<exists>dirPath. path n = relativeOf options dirPath (name n)) \<and>
     \<not> ig (path n) \<and>
     \<not> depthReached options (level n) \<and>
     (case children n of
        None \<Rightarrow> \<not> isDirectory n
      | Some cs \<Rightarrow> isDirectory n \<and> (depthReached options (level n + 1) \<longrightarrow> cs = [])
                   \<and> (\<exists>items. cs = array_sort (compareNodes lc) items))"

text \<open>The nodes one directory entry adds to \<open>items\<close>.\<close>

definition entryNodes ::
    "(string \<Rightarrow> string \<Rightarrow> int) \<Rightarrow> string \<Rightarrow> GtreeOptions \<Rightarrow> (string \<Rightarrow> bool) \<Rightarrow> nat
     \<Rightarrow> string \<times> fsnode \<Rightarrow> FileNode list" where
  "entryNodes lc dirPath options ig currentLevel e =
     (if (showHidden options \<noteq> Some True \<and> startsWith (fst e) ''.'')
         \<or> ig (relativeOf options dirPath (fst e)) then []
      else [FileNode (fst e) (relativeOf options dirPath (fst e))
              (case snd e of FsDir r es \<Rightarrow> True | FsFile c \<Rightarrow> False)
              (case snd e of
                 FsDir r es \<Rightarrow>
                   Some (fst (scanDirectory lc (path_join dirPath (fst e)) (snd e) options ig
                                (currentLevel + 1)))
               | FsFile c \<Rightarrow> None)
              currentLevel])"

text \<open>A comparator is consistent when \<open>a\<close> before-or-equal \<open>b\<close> is total and transitive.\<close>

definition consistent :: "('a \<Rightarrow> 'a \<Rightarrow> int) \<Rightarrow> bool" where
  "consistent cmp \<longleftrightarrow>
     (\<forall>a b. cmp a b \<le> 0 \<or> cmp b a \<le> 0) \<and>
     (\<forall>a b c. cmp a b \<le> 0 \<and> cmp b c \<le> 0 \<longrightarrow> cmp a c \<le> 0)"

text \<open>The order of one list of siblings: no file before a directory, and names
  ascending under \<open>lc\<close> among the directories and among the files.\<close>

definition level_sorted :: "(string \<Rightarrow> string \<Rightarrow> int) \<Rightarrow> FileNode list \<Rightarrow> bool" where
  "level_sorted lc nodes =
     sorted_wrt (\<lambda>a b. (isDirectory b \<longrightarrow> isDirectory a) \<and>
                       (isDirectory a = isDirectory b \<longrightarrow> lc (name a) (name b) \<le> 0)) nodes"

text \<open>Where a depth can come from: \<open>parseInt\<close> of an argument token, or of the text after
  \<open>-L\<close> in one token; a negative depth needs a minus sign in that text.\<close>

definition depthSource :: "string list \<Rightarrow> int \<Rightarrow> bool" where
  "depthSource toks d \<longleftrightarrow>
     (\<exists>t. (t \<in> set toks \<or> (\<exists>a \<in> set toks. prefix ''-L'' a \<and> t = drop 2 a))
          \<and> parseInt t = Some d \<and> (d < 0 \<longrightarrow> CHR ''-'' \<in> set t))"

section \<open>Example file systems\<close>

text \<open>A consistent comparator to run the examples with: code units compared left to
  right.\<close>

definition lcmp :: "string \<Rightarrow> string \<Rightarrow> int" where
  "lcmp a b = (if a < b then - 1 else if a = b then 0 else 1)"

text \<open>A directory with \<open>file1.txt\<close>, \<open>file2.txt\<close> and \<open>subdir/file3.txt\<close>.\<close>

definition entriesA :: "(string \<times> fsnode) list" where
  "entriesA =
     [(''file1.txt'', FsFile (Some ''content1'')),
      (''file2.txt'', FsFile (Some ''content2'')),
      (''subdir'', FsDir True [(''file3.txt'', FsFile (Some ''content3''))])]"

text \<open>A directory whose \<open>.gitignore\<close> holds the lines \<open>ignored_file.txt\<close> and
  \<open>ignored_dir/\<close>, with \<open>visible_file.txt\<close>, \<open>ignored_file.txt\<close> and
  \<open>ignored_dir/secret.txt\<close>.\<close>

definition entriesB :: "(string \<times> fsnode) list" where
  "entriesB =
     [(''.gitignore'', FsFile (Some (''ignored_file.txt'' @ NL @ ''ignored_dir/''))),
      (''visible_file.txt'', FsFile (Some ''content'')),
      (''ignored_file.txt'', FsFile (Some ''should be ignored'')),
      (''ignored_dir'', FsDir True [(''secret.txt'', FsFile (Some ''secret''))])]"

text \<open>A directory with a hidden file, a \<open>.git\<close> directory, \<open>node_modules\<close>, a directory
  that cannot be listed, and two levels of directories.\<close>

definition entriesC :: "(string \<times> fsnode) list" where
  "entriesC =
     [(''.env'', FsFile (Some ''secret'')),
      (''.git'', FsDir True [(''HEAD'', FsFile (Some ''ref''))]),
      (''node_modules'', FsDir True [(''pkg'', FsDir True [])]),
      (''locked'', FsDir False [(''inside.txt'', FsFile (Some ''x''))]),
      (''level1'', FsDir True [(''level2'', FsDir True [(''deep.txt'', FsFile (Some ''y''))])])]"

text \<open>The process runs in \<open>/work\<close>, where \<open>proj\<close> is the given directory and
  \<open>notes.txt\<close> a file.\<close>

definition worldOf :: "(string \<times> fsnode) list \<Rightarrow> world" where
  "worldOf es =
     \<lparr>resolve = (\<lambda>p. ''/work/'' @ p),
      lookup = (\<lambda>p. if p = ''/work/proj'' then Some (FsDir True es)
                     else if p = ''/work/notes.txt'' then Some (FsFile (Some ''notes''))
                     else None),
      localeCompare = lcmp\<rparr>"

definition noOptions :: GtreeOptions where
  "noOptions = \<lparr>maxDepth = None, showHidden = None, excludeGit = None, baseDirectory = None\<rparr>"

definition optionsAt :: "string \<Rightarrow> GtreeOptions" where
  "optionsAt base = noOptions\<lparr>baseDirectory := Some base\<rparr>"

text \<open>Options of a scan below \<open>/work/proj\<close>, with a depth limit and a hidden-files flag.\<close>

definition optionsC :: "int option \<Rightarrow> bool option \<Rightarrow> GtreeOptions" where
  "optionsC m h = (optionsAt ''/work/proj'')\<lparr>maxDepth := m, showHidden := h\<rparr>"

section \<open>Lemmas on strings\<close>

lemma some_iff: "some f xs \<longleftrightarrow> (\<exists>x \<in> set xs. f x)"
  by (induction xs) auto

lemma includes_str_iff: "includes_str s p \<longleftrightarrow> (\<exists>a b. s = a @ p @ b)"
proof (induction s)
  case Nil
  then show ?case by auto
next
  case (Cons x xs)
  show ?case
  proof
    assume "includes_str (x # xs) p"
    then consider "prefix p (x # xs)" | "includes_str xs p" by auto
    then show "\<exists>a b. x # xs = a @ p @ b"
    proof cases
      case 1
      then obtain b where "x # xs = p @ b" by (auto simp: prefix_def)
      then have "x # xs = [] @ p @ b" by simp
      then show ?thesis by blast
    next
      case 2
      with Cons.IH obtain a b where "xs = a @ p @ b" by blast
      then have "x # xs = (x # a) @ p @ b" by simp
      then show ?thesis by blast
    qed
  next
    assume "\<exists>a b. x # xs = a @ p @ b"
    then obtain a b where ab: "x # xs = a @ p @ b" by blast
    show "includes_str (x # xs) p"
    proof (cases a)
      case Nil
      with ab have "prefix p (x # xs)" by (simp add: prefix_def)
      then show ?thesis by simp
    next
      case (Cons y a')
      with ab have "xs = a' @ p @ b" by simp
      with Cons.IH have "includes_str xs p" by blast
      then show ?thesis by simp
    qed
  qed
qed

lemma split_on_not_Nil [simp]: "split_on c s \<noteq> []"
  by (induction s) (auto split: list.splits)

lemma split_on_no_sep: "c \<notin> set s \<Longrightarrow> split_on c s = [s]"
  by (induction s) auto

lemma split_on_append: "split_on c (a @ c # r) = split_on c a @ split_on c r"
proof (induction a)
  case Nil
  then show ?case by simp
next
  case (Cons x a)
  obtain h t where ht: "split_on c a = h # t"
    by (cases "split_on c a") auto
  with Cons show ?case by simp
qed

lemma split_on_first: "c \<notin> set u \<Longrightarrow> split_on c (u @ c # r) = u # split_on c r"
  by (simp add: split_on_append split_on_no_sep)

lemma split_on_sep_free: "s \<in> set (split_on c p) \<Longrightarrow> c \<notin> set s"
proof (induction p arbitrary: s)
  case Nil
  then show ?case by simp
next
  case (Cons x xs)
  obtain h t where ht: "split_on c xs = h # t"
    by (cases "split_on c xs") auto
  have "c \<notin> set h" using Cons.IH [of h] ht by simp
  with Cons ht show ?case by (auto split: if_splits)
qed

lemma split_on_head_segment:
  assumes "c \<notin> set s" and "b = [] \<or> hd b = c"
  shows "s \<in> set (split_on c (s @ b))"
proof (cases b)
  case Nil
  with assms show ?thesis by (simp add: split_on_no_sep)
next
  case (Cons y b')
  with assms have "s @ b = s @ c # b'" by simp
  with assms show ?thesis by (simp add: split_on_first)
qed

lemma split_on_segmentI:
  assumes "c \<notin> set s" and "p = a @ s @ b"
    and "a = [] \<or> last a = c" and "b = [] \<or> hd b = c"
  shows "s \<in> set (split_on c p)"
proof (cases "a = []")
  case True
  with assms split_on_head_segment [of c s b] show ?thesis by simp
next
  case False
  with assms obtain a0 where a0: "a = a0 @ [c]"
    by (metis append_butlast_last_id)
  with assms have "p = a0 @ c # (s @ b)" by simp
  then have "split_on c p = split_on c a0 @ split_on c (s @ b)"
    by (simp add: split_on_append)
  with split_on_head_segment [of c s b] assms show ?thesis by simp
qed

lemma split_on_segmentD:
  "s \<in> set (split_on c p) \<Longrightarrow>
     \<exists>a b. p = a @ s @ b \<and> (a = [] \<or> last a = c) \<and> (b = [] \<or> hd b = c)"
proof (induction "length p" arbitrary: p rule: less_induct)
  case less
  show ?case
  proof (cases "c \<in> set p")
    case False
    with less.prems have "s = p" by (simp add: split_on_no_sep)
    then have "p = [] @ s @ []" by simp
    then show ?thesis by blast
  next
    case True
    then obtain u r where ur: "p = u @ c # r" "c \<notin> set u"
      by (auto dest: split_list_first)
    then have sp: "split_on c p = u # split_on c r" by (simp add: split_on_first)
    with less.prems consider "s = u" | "s \<in> set (split_on c r)" by auto
    then show ?thesis
    proof cases
      case 1
      with ur have "p = [] @ s @ (c # r)" by simp
      moreover have "hd (c # r) = c" by simp
      ultimately show ?thesis by blast
    next
      case 2
      from ur have "length r < length p" by simp
      from less.hyps [OF this 2] obtain a b
        where ab: "r = a @ s @ b" "a = [] \<or> last a = c" "b = [] \<or> hd b = c" by blast
      from ur ab have "p = (u @ c # a) @ s @ b" by simp
      moreover from ab have "last (u @ c # a) = c" by auto
      ultimately show ?thesis using ab(3) by blast
    qed
  qed
qed

lemma split_on_is_segment: "s \<in> set (split_on CHR ''/'' p) \<longleftrightarrow> is_segment s p"
  unfolding is_segment_def
  using split_on_sep_free split_on_segmentD split_on_segmentI by metis

lemma slash_star_suffix:
  "suffix ''/**'' pattern \<Longrightarrow> pattern = take (length pattern - 3) pattern @ ''/**''"
proof -
  assume "suffix ''/**'' pattern"
  then have "pattern = take (length pattern - length ''/**'') pattern @ ''/**''"
    by (rule suffix_take)
  moreover have "length ''/**'' = 3" by simp
  ultimately show ?thesis by (simp only:)
qed

lemma patternMatches_spec_rule: "patternMatches p pattern = spec_rule pattern p"
proof (cases "suffix ''/**'' pattern")
  case True
  let ?dir = "take (length pattern - 3) pattern"
  from True have eq: "pattern = ?dir @ ''/**''" by (rule slash_star_suffix)
  have "(\<exists>pre. pattern = pre @ ''/**'' \<and> (p = pre \<or> prefix (pre @ ''/'') p))
        \<longleftrightarrow> (p = ?dir \<or> prefix (?dir @ ''/'') p)"
  proof
    assume "\<exists>pre. pattern = pre @ ''/**'' \<and> (p = pre \<or> prefix (pre @ ''/'') p)"
    then obtain pre where pre: "pattern = pre @ ''/**''" "p = pre \<or> prefix (pre @ ''/'') p"
      by blast
    from pre(1) have "?dir = pre" by simp
    with pre(2) show "p = ?dir \<or> prefix (?dir @ ''/'') p" by simp
  next
    assume "p = ?dir \<or> prefix (?dir @ ''/'') p"
    with eq show "\<exists>pre. pattern = pre @ ''/**'' \<and> (p = pre \<or> prefix (pre @ ''/'') p)"
      by blast
  qed
  with True show ?thesis
    by (auto simp: patternMatches_def spec_rule_def endsWith_def startsWith_def Let_def)
next
  case False
  then show ?thesis
    by (simp add: patternMatches_def spec_rule_def endsWith_def includes_str_iff
        split_on_is_segment)
qed

lemma ignores_iff: "ignores allIgnores p \<longleftrightarrow> (\<exists>pat \<in> set allIgnores. spec_rule pat (normalizePath p))"
  by (simp add: ignores_def some_iff patternMatches_spec_rule)

lemma normalizePath_id: "CHR 0x5C \<notin> set p \<Longrightarrow> normalizePath p = p"
  by (induction p) (auto simp: normalizePath_def)

section \<open>Lemmas on the scanner\<close>

lemma forest_nodes_append: "forest_nodes (xs @ ys) = forest_nodes xs @ forest_nodes ys"
  by (induction xs rule: forest_nodes.induct) auto

lemma set_forest_nodes:
  "set (forest_nodes xs) = (\<Union>n \<in> set xs. set (forest_nodes [n]))"
  by (induction xs rule: forest_nodes.induct) auto

lemma set_insertBy: "set (insertBy cmp x ys) = insert x (set ys)"
  by (induction ys) auto

lemma set_array_sort: "set (array_sort cmp xs) = set xs"
  by (induction xs) (auto simp: array_sort_def set_insertBy)

lemma set_forest_nodes_sort:
  "set (forest_nodes (array_sort cmp xs)) = set (forest_nodes xs)"
  using set_forest_nodes [of "array_sort cmp xs"] set_forest_nodes [of xs]
  by (simp only: set_array_sort)


lemma scanDirectory_depth:
  "depthReached options currentLevel \<Longrightarrow>
   scanDirectory lc dirPath d options ig currentLevel = ([], [])"
  by simp

lemma scanDirectory_readable:
  "\<not> depthReached options currentLevel \<Longrightarrow>
   scanDirectory lc dirPath (FsDir True entries) options ig currentLevel =
     (array_sort (compareNodes lc)
        (fst (scanEntries lc dirPath entries options ig currentLevel ([], [ReadDir dirPath]))),
      snd (scanEntries lc dirPath entries options ig currentLevel ([], [ReadDir dirPath])))"
  by (simp split: prod.splits)

lemma scanDirectory_unreadable:
  "\<not> depthReached options currentLevel \<Longrightarrow> \<forall>entries. d \<noteq> FsDir True entries \<Longrightarrow>
   scanDirectory lc dirPath d options ig currentLevel = ([], [ReadDir dirPath])"
  by (cases d) (auto simp: array_sort_def split: bool.splits)

lemma scanDirectory_sorted_output:
  "\<exists>items. fst (scanDirectory lc dirPath d options ig currentLevel)
            = array_sort (compareNodes lc) items"
proof (cases "depthReached options currentLevel")
  case True
  then have "fst (scanDirectory lc dirPath d options ig currentLevel)
             = array_sort (compareNodes lc) []"
    by (simp add: array_sort_def)
  then show ?thesis by blast
next
  case False
  show ?thesis
  proof (cases "\<exists>entries. d = FsDir True entries")
    case True
    with False show ?thesis by (auto simp: scanDirectory_readable simp del: scanDirectory.simps)
  next
    case False
    with \<open>\<not> depthReached options currentLevel\<close>
    have "fst (scanDirectory lc dirPath d options ig currentLevel)
          = array_sort (compareNodes lc) []"
      by (simp add: scanDirectory_unreadable array_sort_def del: scanDirectory.simps)
    then show ?thesis by blast
  qed
qed

lemma scanEntries_hidden:
  "showHidden options \<noteq> Some True \<Longrightarrow> startsWith nm ''.'' \<Longrightarrow>
   scanEntries lc dirPath ((nm, t) # rest) options ig currentLevel acc =
   scanEntries lc dirPath rest options ig currentLevel acc"
  by (cases acc) (simp add: Let_def)

lemma scanEntries_ignored:
  "\<not> (showHidden options \<noteq> Some True \<and> startsWith nm ''.'') \<Longrightarrow>
   ig (relativeOf options dirPath nm) \<Longrightarrow>
   scanEntries lc dirPath ((nm, t) # rest) options ig currentLevel (items, tr) =
   scanEntries lc dirPath rest options ig currentLevel
     (items, tr @ [IgnoreQuery (relativeOf options dirPath nm)])"
  by (auto simp: relativeOf_def Let_def)

lemma scanEntries_file:
  "\<not> (showHidden options \<noteq> Some True \<and> startsWith nm ''.'') \<Longrightarrow>
   \<not> ig (relativeOf options dirPath nm) \<Longrightarrow>
   scanEntries lc dirPath ((nm, FsFile c) # rest) options ig currentLevel (items, tr) =
   scanEntries lc dirPath rest options ig currentLevel
     (items @ [FileNode nm (relativeOf options dirPath nm) False None currentLevel],
      tr @ [IgnoreQuery (relativeOf options dirPath nm)])"
  by (auto simp: relativeOf_def Let_def)

lemma scanEntries_dir:
  "\<not> (showHidden options \<noteq> Some True \<and> startsWith nm ''.'') \<Longrightarrow>
   \<not> ig (relativeOf options dirPath nm) \<Longrightarrow>
   scanEntries lc dirPath ((nm, FsDir r es) # rest) options ig currentLevel (items, tr) =
   scanEntries lc dirPath rest options ig currentLevel
     (items @ [FileNode nm (relativeOf options dirPath nm) True
                 (Some (fst (scanDirectory lc (path_join dirPath nm) (FsDir r es) options ig
                               (currentLevel + 1))))
                 currentLevel],
      tr @ [IgnoreQuery (relativeOf options dirPath nm)]
         @ snd (scanDirectory lc (path_join dirPath nm) (FsDir r es) options ig
                  (currentLevel + 1)))"
  by (auto simp: relativeOf_def Let_def split: prod.splits simp del: scanDirectory.simps)

lemma scan_emitted:
  "(\<forall>n \<in> set (forest_nodes (fst (scanDirectory lc dirPath d options ig currentLevel))).
       emitted lc options ig n)"
  "(\<forall>n \<in> set (forest_nodes (fst acc)). emitted lc options ig n) \<Longrightarrow>
    \<not> depthReached options currentLevel \<Longrightarrow>
    (\<forall>n \<in> set (forest_nodes (fst (scanEntries lc dirPath entries options ig currentLevel acc))).
       emitted lc options ig n)"
proof (induction lc dirPath d options ig currentLevel and lc dirPath entries options ig currentLevel acc
    rule: scanDirectory_scanEntries.induct)
  case (1 lc dirPath d options ig currentLevel)
  show ?case
  proof (cases "depthReached options currentLevel")
    case True
    then show ?thesis by simp
  next
    case nd: False
    show ?thesis
    proof (cases "\<exists>entries. d = FsDir True entries")
      case True
      then obtain entries where d: "d = FsDir True entries" by blast
      have "\<forall>n \<in> set (forest_nodes (fst (scanEntries lc dirPath entries options ig currentLevel
                ([], [ReadDir dirPath])))). emitted lc options ig n"
        using "1.IH" [OF nd d] nd by simp
      with nd d show ?thesis
        by (simp add: scanDirectory_readable set_forest_nodes_sort del: scanDirectory.simps)
    next
      case False
      with nd show ?thesis
        by (simp add: scanDirectory_unreadable del: scanDirectory.simps)
    qed
  qed
next
  case (2 lc dirPath options ig currentLevel acc)
  then show ?case by simp
next
  case (3 lc dirPath nm t rest options ig currentLevel items tr)
  let ?rel = "relativeOf options dirPath nm"
  have rel: "path_relative (baseOf options) (path_join dirPath nm) = ?rel"
    by (simp add: relativeOf_def)
  from "3.prems" have acc: "\<forall>n \<in> set (forest_nodes items). emitted lc options ig n"
    and nd: "\<not> depthReached options currentLevel" by simp_all
  show ?case
  proof (cases "showHidden options \<noteq> Some True \<and> startsWith nm ''.''")
    case True
    then have eq: "scanEntries lc dirPath ((nm, t) # rest) options ig currentLevel (items, tr)
        = scanEntries lc dirPath rest options ig currentLevel (items, tr)"
      by (simp add: scanEntries_hidden del: scanEntries.simps)
    from "3.IH"(1) [OF refl refl True "3.prems"] show ?thesis
      unfolding eq .
  next
    case nh: False
    show ?thesis
    proof (cases "ig ?rel")
      case True
      with nh have eq: "scanEntries lc dirPath ((nm, t) # rest) options ig currentLevel (items, tr)
          = scanEntries lc dirPath rest options ig currentLevel (items, tr @ [IgnoreQuery ?rel])"
        by (simp add: scanEntries_ignored del: scanEntries.simps)
      from True have ig: "ig (path_relative (baseOf options) (path_join dirPath nm))"
        by (simp add: rel)
      from acc have "\<forall>n \<in> set (forest_nodes (fst (items, tr @ [IgnoreQuery ?rel]))).
          emitted lc options ig n" by simp
      from "3.IH"(2) [OF refl refl nh ig, unfolded rel, OF this nd] show ?thesis
        unfolding eq .
    next
      case ni: False
      then have ni': "\<not> ig (path_relative (baseOf options) (path_join dirPath nm))"
        by (simp add: rel)
      show ?thesis
      proof (cases t)
        case (FsFile c)
        let ?node = "FileNode nm ?rel False None currentLevel"
        from nh ni FsFile
        have eq: "scanEntries lc dirPath ((nm, t) # rest) options ig currentLevel (items, tr)
          = scanEntries lc dirPath rest options ig currentLevel
              (items @ [?node], tr @ [IgnoreQuery ?rel])"
          by (simp add: scanEntries_file del: scanEntries.simps)
        have "emitted lc options ig ?node"
          using nh ni nd by (auto simp: emitted_def relativeOf_def)
        with acc have "\<forall>n \<in> set (forest_nodes (fst (items @ [?node], tr @ [IgnoreQuery ?rel]))).
            emitted lc options ig n"
          by (auto simp: forest_nodes_append)
        from "3.IH"(3) [OF refl refl nh ni' FsFile, unfolded rel, OF this nd] show ?thesis
          unfolding eq .
      next
        case (FsDir r es)
        let ?sub = "scanDirectory lc (path_join dirPath nm) t options ig (currentLevel + 1)"
        let ?node = "FileNode nm ?rel True (Some (fst ?sub)) currentLevel"
        from nh ni FsDir
        have eq: "scanEntries lc dirPath ((nm, t) # rest) options ig currentLevel (items, tr)
          = scanEntries lc dirPath rest options ig currentLevel
              (items @ [?node], tr @ [IgnoreQuery ?rel] @ snd ?sub)"
          by (simp add: scanEntries_dir del: scanEntries.simps scanDirectory.simps)
        have sub: "\<forall>n \<in> set (forest_nodes (fst ?sub)). emitted lc options ig n"
          by (rule "3.IH"(4) [OF refl refl nh ni' FsDir])
        have "depthReached options (currentLevel + 1) \<longrightarrow> fst ?sub = []"
          by simp
        moreover have "\<exists>items. fst ?sub = array_sort (compareNodes lc) items"
          by (rule scanDirectory_sorted_output)
        ultimately have "emitted lc options ig ?node"
          using nh ni nd by (auto simp: emitted_def relativeOf_def simp del: scanDirectory.simps)
        with acc sub
        have "\<forall>n \<in> set (forest_nodes (fst (items @ [?node], tr @ [IgnoreQuery ?rel] @ snd ?sub))).
            emitted lc options ig n"
          by (auto simp: forest_nodes_append simp del: scanDirectory.simps)
        from "3.IH"(5) [OF refl refl nh ni' FsDir prod.collapse, unfolded rel, OF this nd]
        show ?thesis
          unfolding eq .
      qed
    qed
  qed
qed


lemma scanEntries_fst:
  "fst (scanEntries lc dirPath entries options ig currentLevel acc)
   = fst acc @ concat (map (entryNodes lc dirPath options ig currentLevel) entries)"
proof (induction entries arbitrary: acc)
  case Nil
  then show ?case by simp
next
  case (Cons e entries)
  obtain nm t where e: "e = (nm, t)" by (cases e)
  obtain items tr where acc: "acc = (items, tr)" by (cases acc)
  show ?case
  proof (cases "showHidden options \<noteq> Some True \<and> startsWith nm ''.''")
    case True
    then show ?thesis
      unfolding e acc
      by (simp add: scanEntries_hidden Cons.IH entryNodes_def
          del: scanEntries.simps scanDirectory.simps)
  next
    case nh: False
    show ?thesis
    proof (cases "ig (relativeOf options dirPath nm)")
      case True
      with nh show ?thesis
        unfolding e acc
        by (simp add: scanEntries_ignored Cons.IH entryNodes_def
            del: scanEntries.simps scanDirectory.simps)
    next
      case ni: False
      show ?thesis
      proof (cases t)
        case (FsFile c)
        with nh ni show ?thesis
          unfolding e acc
          by (simp add: scanEntries_file Cons.IH entryNodes_def
              del: scanEntries.simps scanDirectory.simps)
      next
        case (FsDir r es)
        with nh ni show ?thesis
          unfolding e acc
          by (simp add: scanEntries_dir Cons.IH entryNodes_def
              del: scanEntries.simps scanDirectory.simps)
      qed
    qed
  qed
qed

lemma scanDirectory_nodes:
  "\<not> depthReached options currentLevel \<Longrightarrow>
   set (fst (scanDirectory lc dirPath (FsDir True entries) options ig currentLevel))
   = (\<Union>e \<in> set entries. set (entryNodes lc dirPath options ig currentLevel e))"
  by (simp add: scanDirectory_readable set_array_sort scanEntries_fst del: scanDirectory.simps)

lemma name_chains_in_forest:
  "c \<in> set (name_chains nodes) \<Longrightarrow> set c \<subseteq> name ` set (forest_nodes nodes)"
proof (induction nodes arbitrary: c rule: name_chains.induct)
  case (1 c)
  then show ?case by simp
next
  case (2 nm p d cs l ns)
  from "2.prems" consider "c = [nm]"
    | kids c' where "cs = Some kids" "c' \<in> set (name_chains kids)" "c = nm # c'"
    | "c \<in> set (name_chains ns)"
    by (auto split: option.splits)
  then show ?case
  proof cases
    case 1
    then show ?thesis by simp
  next
    case 2
    from "2.IH"(1) [OF 2(1) 2(2)] 2 show ?thesis by auto
  next
    case 3
    from "2.IH"(2) [OF 3] show ?thesis by auto
  qed
qed


lemma entry_emitted:
  assumes "(nm, t) \<in> set entries"
    and "\<not> (showHidden options \<noteq> Some True \<and> startsWith nm ''.'')"
    and "\<not> ig (relativeOf options dirPath nm)"
    and "\<not> depthReached options currentLevel"
  shows "FileNode nm (relativeOf options dirPath nm)
           (case t of FsDir r es \<Rightarrow> True | FsFile c \<Rightarrow> False)
           (case t of
              FsDir r es \<Rightarrow>
                Some (fst (scanDirectory lc (path_join dirPath nm) t options ig (currentLevel + 1)))
            | FsFile c \<Rightarrow> None)
           currentLevel
         \<in> set (fst (scanDirectory lc dirPath (FsDir True entries) options ig currentLevel))"
proof -
  from assms(2,3)
  have "entryNodes lc dirPath options ig currentLevel (nm, t)
        = [FileNode nm (relativeOf options dirPath nm)
            (case t of FsDir r es \<Rightarrow> True | FsFile c \<Rightarrow> False)
            (case t of
               FsDir r es \<Rightarrow>
                 Some (fst (scanDirectory lc (path_join dirPath nm) t options ig (currentLevel + 1)))
             | FsFile c \<Rightarrow> None)
            currentLevel]"
    by (cases t) (simp_all add: entryNodes_def del: scanDirectory.simps)
  with assms(1) show ?thesis
    unfolding scanDirectory_nodes [OF assms(4)]
    by (intro UN_I [of "(nm, t)"]) (simp_all del: scanDirectory.simps)
qed

lemma scanDirectory_cannot_list:
  "scanDirectory lc dirPath (FsDir False es) options ig currentLevel
   = (if depthReached options currentLevel then ([], []) else ([], [ReadDir dirPath]))"
  by (simp add: array_sort_def)

lemma chain_names_emitted:
  assumes "c \<in> set (name_chains (fst (scanDirectory lc dirPath d options ig currentLevel)))"
    and "nm \<in> set c"
  shows "\<exists>n. emitted lc options ig n \<and> name n = nm"
proof -
  from name_chains_in_forest [OF assms(1)] assms(2)
  obtain n where "n \<in> set (forest_nodes (fst (scanDirectory lc dirPath d options ig currentLevel)))"
    and "name n = nm" by auto
  with scan_emitted(1) [of lc dirPath d options ig currentLevel] show ?thesis by blast
qed

subsection \<open>Relative paths and the default patterns\<close>

lemma path_join_shape: "\<exists>d. path_join dirPath nm = d @ CHR ''/'' # nm"
proof (cases "dirPath = ''/''")
  case True
  then have "path_join dirPath nm = [] @ CHR ''/'' # nm" by (simp add: path_join_def)
  then show ?thesis by blast
next
  case False
  then have "path_join dirPath nm = dirPath @ CHR ''/'' # nm" by (simp add: path_join_def)
  then show ?thesis by blast
qed

lemma drop_keeps_last_segment:
  assumes k: "k \<le> length (d @ CHR ''/'' # nm)"
    and slash: "k = 0 \<or> (d @ CHR ''/'' # nm) ! (k - 1) = CHR ''/''"
    and nm: "CHR ''/'' \<notin> set nm"
  shows "drop k (d @ CHR ''/'' # nm) = nm \<or> (\<exists>y. drop k (d @ CHR ''/'' # nm) = y @ CHR ''/'' # nm)"
proof (cases "k \<le> length d")
  case True
  then have "drop k (d @ CHR ''/'' # nm) = drop k d @ CHR ''/'' # nm" by simp
  then show ?thesis by blast
next
  case False
  then have kd: "length d < k" by simp
  show ?thesis
  proof (cases "k = Suc (length d)")
    case True
    then show ?thesis by simp
  next
    case False
    with kd have k2: "Suc (length d) < k" by simp
    with slash have "(d @ CHR ''/'' # nm) ! (k - 1) = CHR ''/''" by auto
    moreover have "(d @ CHR ''/'' # nm) ! (k - 1) = nm ! (k - 1 - Suc (length d))"
    proof -
      have "(d @ CHR ''/'' # nm) ! (k - 1) = ((d @ [CHR ''/'']) @ nm) ! (k - 1)" by simp
      also have "\<dots> = nm ! (k - 1 - length (d @ [CHR ''/'']))"
      proof -
        from k2 have "\<not> k - 1 < length (d @ [CHR ''/''])" by simp
        then show ?thesis by (simp only: nth_append if_False)
      qed
      finally show ?thesis by simp
    qed
    moreover from k k2 have "k - 1 - Suc (length d) < length nm" by auto
    ultimately have "CHR ''/'' \<in> set nm" by (metis nth_mem)
    with nm show ?thesis by simp
  qed
qed

lemma relativeOf_shape:
  assumes nm: "CHR ''/'' \<notin> set nm"
  shows "relativeOf options dirPath nm = nm \<or> (\<exists>y. relativeOf options dirPath nm = y @ CHR ''/'' # nm)"
proof -
  obtain d where d: "path_join dirPath nm = d @ CHR ''/'' # nm"
    using path_join_shape by blast
  let ?from = "baseOf options"
  let ?pre = "if ?from = ''/'' then ?from else ?from @ ''/''"
  show ?thesis
  proof (cases "prefix ?pre (d @ CHR ''/'' # nm)")
    case False
    then have "relativeOf options dirPath nm = d @ CHR ''/'' # nm"
      by (simp add: relativeOf_def path_relative_def d Let_def)
    then show ?thesis by blast
  next
    case True
    then have r: "relativeOf options dirPath nm = drop (length ?pre) (d @ CHR ''/'' # nm)"
      by (simp add: relativeOf_def path_relative_def d Let_def)
    from True have len: "length ?pre \<le> length (d @ CHR ''/'' # nm)"
      by (rule prefix_length_le)
    have pre_pos: "0 < length ?pre" by simp
    have lastpre: "?pre ! (length ?pre - 1) = CHR ''/''"
      by (auto simp: nth_append)
    from True obtain z where z: "d @ CHR ''/'' # nm = ?pre @ z" by (auto simp: prefix_def)
    have "(d @ CHR ''/'' # nm) ! (length ?pre - 1) = ?pre ! (length ?pre - 1)"
      unfolding z using pre_pos by (simp add: nth_append)
    with lastpre have "(d @ CHR ''/'' # nm) ! (length ?pre - 1) = CHR ''/''" by simp
    with drop_keeps_last_segment [OF len _ nm] r show ?thesis by simp
  qed
qed

lemma normalizePath_append: "normalizePath (a @ b) = normalizePath a @ normalizePath b"
  by (simp add: normalizePath_def)

lemma name_is_segment:
  assumes "CHR ''/'' \<notin> set nm" and "CHR 0x5C \<notin> set nm"
  shows "nm \<in> set (split_on CHR ''/'' (normalizePath (relativeOf options dirPath nm)))"
proof -
  from relativeOf_shape [OF assms(1)]
  consider "relativeOf options dirPath nm = nm"
    | y where "relativeOf options dirPath nm = y @ CHR ''/'' # nm" by blast
  then show ?thesis
  proof cases
    case 1
    with assms show ?thesis by (simp add: normalizePath_id split_on_no_sep)
  next
    case 2
    then have "normalizePath (relativeOf options dirPath nm)
               = normalizePath y @ CHR ''/'' # nm"
      using assms(2) normalizePath_id [of nm]
      by (simp add: normalizePath_append) (simp add: normalizePath_def)
    with assms(1) show ?thesis
      by (simp add: split_on_append split_on_no_sep)
  qed
qed

lemma slash_free_pattern_ignores:
  assumes "nm \<in> set pats" and "CHR ''/'' \<notin> set nm" and "CHR 0x5C \<notin> set nm"
  shows "ignores pats (relativeOf options dirPath nm)"
proof -
  from assms(2) have "\<not> suffix ''/**'' nm"
    by (auto simp: suffix_def)
  with assms(2) name_is_segment [OF assms(2,3)]
  have "patternMatches (normalizePath (relativeOf options dirPath nm)) nm"
    by (simp add: patternMatches_def endsWith_def)
  with assms(1) show ?thesis
    by (auto simp: ignores_def some_iff)
qed

lemma default_names_ignored:
  "nm \<in> set defaultIgnores \<Longrightarrow> createIgnoreInstance baseNode (relativeOf options dirPath nm)"
  unfolding createIgnoreInstance_def allIgnoresOf_def
  by (rule slash_free_pattern_ignores) (auto simp: defaultIgnores_def)

subsection \<open>Sorting\<close>

lemma compareNodes_le:
  "compareNodes lc a b \<le> 0 \<longleftrightarrow>
     (isDirectory b \<longrightarrow> isDirectory a) \<and> (isDirectory a = isDirectory b \<longrightarrow> lc (name a) (name b) \<le> 0)"
  by (auto simp: compareNodes_def)

lemma consistent_compareNodes: "consistent lc \<Longrightarrow> consistent (compareNodes lc)"
  unfolding consistent_def compareNodes_le by blast

lemma sorted_insertBy:
  assumes c: "consistent cmp" and s: "sorted_wrt (\<lambda>a b. cmp a b \<le> 0) ys"
  shows "sorted_wrt (\<lambda>a b. cmp a b \<le> 0) (insertBy cmp x ys)"
  using s
proof (induction ys)
  case Nil
  then show ?case by simp
next
  case (Cons y ys)
  show ?case
  proof (cases "cmp x y \<le> 0")
    case True
    with c Cons.prems have "\<forall>z \<in> set ys. cmp x z \<le> 0"
      unfolding consistent_def by (metis sorted_wrt.simps(2))
    with True Cons.prems show ?thesis by simp
  next
    case False
    with c have "cmp y x \<le> 0" unfolding consistent_def by blast
    with False Cons show ?thesis by (auto simp: set_insertBy)
  qed
qed

lemma sorted_array_sort:
  "consistent cmp \<Longrightarrow> sorted_wrt (\<lambda>a b. cmp a b \<le> 0) (array_sort cmp xs)"
  by (induction xs) (auto simp: array_sort_def intro: sorted_insertBy)

lemma level_sorted_array_sort:
  "consistent lc \<Longrightarrow> level_sorted lc (array_sort (compareNodes lc) items)"
  using sorted_array_sort [OF consistent_compareNodes, of lc items]
  by (simp add: level_sorted_def compareNodes_le)


section \<open>Lemmas on the renderer\<close>

lemma prefixLoop_concat:
  "prefixLoop isLast j pfx
   = pfx @ concat (map (\<lambda>wasLast. if wasLast then SPACES else VBAR) (drop j isLast))"
proof (induction isLast j pfx rule: prefixLoop.induct)
  case (1 isLast j pfx)
  show ?case
  proof (cases "j < length isLast")
    case True
    then have "drop j isLast = isLast ! j # drop (j + 1) isLast"
      by (simp add: Cons_nth_drop_Suc)
    with True "1.IH" show ?thesis
      by (subst prefixLoop.simps) simp
  next
    case False
    then show ?thesis by (subst prefixLoop.simps) simp
  qed
qed

lemma prefixLoop_linePrefix:
  "prefixLoop isLast 0 [] @ (if b then ELBOW else TEE) = linePrefix isLast b"
  by (simp add: prefixLoop_concat linePrefix_def)

lemma render_node:
  "render ancestors (n # siblings) =
     linePrefix ancestors (siblings = []) @ name n @ NL
     @ (case children n of None \<Rightarrow> [] | Some kids \<Rightarrow> render (ancestors @ [siblings = []]) kids)
     @ render ancestors siblings"
  by (cases n) simp

lemma formatTreeLoop_render:
  "i \<le> length nodes \<Longrightarrow>
   formatTreeLoop nodes isLast i result = result @ render isLast (drop i nodes)"
proof (induction nodes isLast i result rule: formatTreeLoop.induct)
  case (1 nodes isLast i result)
  show ?case
  proof (cases "i < length nodes")
    case False
    then show ?thesis by (subst formatTreeLoop.simps) simp
  next
    case True
    let ?node = "nodes ! i"
    let ?last = "i = length nodes - 1"
    let ?pfx = "prefixLoop isLast 0 [] @ (if ?last then ELBOW else TEE)"
    let ?r1 = "result @ ?pfx @ name ?node @ NL"
    from True have d: "drop i nodes = ?node # drop (Suc i) nodes"
      by (simp add: Cons_nth_drop_Suc)
    from True have l: "(length nodes \<le> Suc i) = (i = length nodes - Suc 0)" by auto
    show ?thesis
    proof (cases "children ?node")
      case None
      from "1.IH"(1) [OF True refl refl refl refl None] True
      have "formatTreeLoop nodes isLast (i + 1) ?r1 = ?r1 @ render isLast (drop (i + 1) nodes)"
        by simp
      with True None show ?thesis
        by (subst formatTreeLoop.simps)
          (simp add: d render_node l prefixLoop_linePrefix Let_def)
    next
      case (Some cs)
      show ?thesis
      proof (cases "length cs > 0")
        case False
        from "1.IH"(4) [OF True refl refl refl refl Some False] True
        have "formatTreeLoop nodes isLast (i + 1) ?r1 = ?r1 @ render isLast (drop (i + 1) nodes)"
          by simp
        with True Some False show ?thesis
          by (subst formatTreeLoop.simps)
            (simp add: d render_node l prefixLoop_linePrefix Let_def)
      next
        case ne: True
        from "1.IH"(2) [OF True refl refl refl refl Some ne]
        have sub: "formatTreeLoop cs (isLast @ [?last]) 0 [] = render (isLast @ [?last]) cs"
          by simp
        from "1.IH"(3) [OF True refl refl refl refl Some ne] True sub
        have "formatTreeLoop nodes isLast (i + 1) (?r1 @ render (isLast @ [?last]) cs)
              = (?r1 @ render (isLast @ [?last]) cs) @ render isLast (drop (i + 1) nodes)"
          by simp
        with True Some ne sub show ?thesis
          by (subst formatTreeLoop.simps)
            (simp add: d render_node l prefixLoop_linePrefix Let_def)
      qed
    qed
  qed
qed

lemma formatTree_render: "formatTree nodes isLast = render isLast nodes"
  by (simp add: formatTree_def formatTreeLoop_render)


section \<open>Lemmas on \<open>generateTree\<close>\<close>

lemma scanDirectory_fst:
  "\<not> depthReached options currentLevel \<Longrightarrow>
   fst (scanDirectory lc dirPath (FsDir True entries) options ig currentLevel)
   = array_sort (compareNodes lc)
       (concat (map (entryNodes lc dirPath options ig currentLevel) entries))"
  by (simp add: scanDirectory_readable scanEntries_fst del: scanDirectory.simps)

lemma generateTree_output:
  assumes "lookup w (resolve w targetPath) = Some (FsDir r es)"
  shows "fst (generateTree w targetPath options)
         = Inr (path_basename (resolve w targetPath) @ NL
                @ render [] (fst (scanDirectory (localeCompare w) (resolve w targetPath) (FsDir r es)
                     (options\<lparr>baseDirectory := Some (resolve w targetPath)\<rparr>)
                     (createIgnoreInstance (FsDir r es)) 0)))"
  using assms
  by (auto simp: generateTree_def Let_def formatTree_render split: prod.splits
      simp del: scanDirectory.simps)

section \<open>Lemmas on the examples\<close>

lemma consistent_lcmp: "consistent lcmp"
  by (auto simp: consistent_def lcmp_def)

lemma optionsAt_simps:
  "maxDepth (optionsAt base) = None" "showHidden (optionsAt base) = None"
  "baseDirectory (optionsAt base) = Some base" "\<not> depthReached (optionsAt base) l"
  by (simp_all add: optionsAt_def noOptions_def depthReached_def)

lemma ignB: "allIgnoresOf (FsDir True entriesB)
   = [''.git'', ''.DS_Store'', ''node_modules'', ''ignored_file.txt'', ''ignored_dir/'']"
  by (simp add: entriesB_def allIgnoresOf_def gitignorePatterns_def defaultIgnores_def
      trim_def isWhiteSpace_def startsWith_def NL_def)

lemma igB: "createIgnoreInstance (FsDir True entriesB)
   = ignores [''.git'', ''.DS_Store'', ''node_modules'', ''ignored_file.txt'', ''ignored_dir/'']"
  by (simp add: createIgnoreInstance_def ignB)

lemmas ignores_eval = ignores_def normalizePath_def patternMatches_def endsWith_def
  startsWith_def suffix_to_prefix Let_def

lemma igB_values:
  "\<not> createIgnoreInstance (FsDir True entriesB) ''ignored_dir''"
  "createIgnoreInstance (FsDir True entriesB) ''ignored_dir/secret.txt''"
  "createIgnoreInstance (FsDir True entriesB) ''ignored_file.txt''"
  "\<not> createIgnoreInstance (FsDir True entriesB) ''visible_file.txt''"
  unfolding igB by (simp_all add: ignores_eval)

lemma relativeOf_base: "relativeOf (optionsAt ''/work/proj'') ''/work/proj'' nm = nm"
  by (simp add: relativeOf_def path_join_def path_relative_def baseOf_def optionsAt_simps)

lemma relativeOf_sub:
  "relativeOf (optionsAt ''/work/proj'') (path_join ''/work/proj'' d) nm = d @ ''/'' @ nm"
  by (simp add: relativeOf_def path_join_def path_relative_def baseOf_def optionsAt_simps)

lemma scanB_any:
  assumes "\<not> ig ''ignored_dir''" "ig ''ignored_dir/secret.txt''" "ig ''ignored_file.txt''"
    "\<not> ig ''visible_file.txt''"
  shows "fst (scanDirectory lc ''/work/proj'' (FsDir True entriesB) (optionsAt ''/work/proj'') ig 0)
   = [FileNode ''ignored_dir'' ''ignored_dir'' True (Some []) 0,
      FileNode ''visible_file.txt'' ''visible_file.txt'' False None 0]"
  using assms
  by (simp add: entriesB_def scanDirectory_fst optionsAt_simps entryNodes_def relativeOf_base
      relativeOf_sub startsWith_def array_sort_def compareNodes_def del: scanDirectory.simps)

lemmas scanB = scanB_any [OF igB_values]

lemma igC: "createIgnoreInstance (FsDir True entriesC) = ignores defaultIgnores"
  by (simp add: createIgnoreInstance_def allIgnoresOf_def gitignorePatterns_def entriesC_def)

lemma igC_values:
  "\<not> createIgnoreInstance (FsDir True entriesC) ''level1''"
  "\<not> createIgnoreInstance (FsDir True entriesC) ''level1/level2''"
  "\<not> createIgnoreInstance (FsDir True entriesC) ''level1/level2/deep.txt''"
  "\<not> createIgnoreInstance (FsDir True entriesC) ''locked''"
  "\<not> createIgnoreInstance (FsDir True entriesC) ''.env''"
  "createIgnoreInstance (FsDir True entriesC) ''.git''"
  "createIgnoreInstance (FsDir True entriesC) ''node_modules''"
  unfolding igC defaultIgnores_def by (simp_all add: ignores_eval)

lemma optionsC_simps:
  "maxDepth (optionsC m h) = m" "showHidden (optionsC m h) = h"
  "baseOf (optionsC m h) = ''/work/proj''"
  "depthReached (optionsC None h) l = False"
  "depthReached (optionsC (Some k) h) l = (k \<le> int l)"
  by (simp_all add: optionsC_def optionsAt_def noOptions_def depthReached_def baseOf_def)

lemma relativeOfC:
  "relativeOf (optionsC m h) ''/work/proj'' nm = nm"
  "relativeOf (optionsC m h) (path_join ''/work/proj'' d) nm = d @ ''/'' @ nm"
  "relativeOf (optionsC m h) (path_join (path_join ''/work/proj'' d) e) nm = d @ ''/'' @ e @ ''/'' @ nm"
  by (simp_all add: relativeOf_def path_join_def path_relative_def optionsC_simps)

lemma lcmp_level1_locked: "lcmp ''level1'' ''locked'' = - 1" "lcmp ''locked'' ''level1'' = 1"
  by (simp_all add: lcmp_def)

lemma scanC_default:
  "fst (scanDirectory lcmp ''/work/proj'' (FsDir True entriesC) (optionsC None None)
          (createIgnoreInstance (FsDir True entriesC)) 0)
   = [FileNode ''level1'' ''level1'' True
        (Some [FileNode ''level2'' ''level1/level2'' True
                 (Some [FileNode ''deep.txt'' ''level1/level2/deep.txt'' False None 2]) 1]) 0,
      FileNode ''locked'' ''locked'' True (Some []) 0]"
  using igC_values
  by (simp add: entriesC_def scanDirectory_fst scanDirectory_cannot_list optionsC_simps
      entryNodes_def relativeOfC startsWith_def array_sort_def compareNodes_def
      lcmp_level1_locked del: scanDirectory.simps)


lemma scanC_all:
  "fst (scanDirectory lcmp ''/work/proj'' (FsDir True entriesC) (optionsC None (Some True))
          (createIgnoreInstance (FsDir True entriesC)) 0)
   = [FileNode ''level1'' ''level1'' True
        (Some [FileNode ''level2'' ''level1/level2'' True
                 (Some [FileNode ''deep.txt'' ''level1/level2/deep.txt'' False None 2]) 1]) 0,
      FileNode ''locked'' ''locked'' True (Some []) 0,
      FileNode ''.env'' ''.env'' False None 0]"
  using igC_values
  by (simp add: entriesC_def scanDirectory_fst scanDirectory_cannot_list optionsC_simps
      entryNodes_def relativeOfC startsWith_def array_sort_def compareNodes_def
      lcmp_level1_locked del: scanDirectory.simps)

lemma igA_values:
  "\<not> createIgnoreInstance (FsDir True entriesA) ''file1.txt''"
  "\<not> createIgnoreInstance (FsDir True entriesA) ''file2.txt''"
  "\<not> createIgnoreInstance (FsDir True entriesA) ''subdir''"
  "\<not> createIgnoreInstance (FsDir True entriesA) ''subdir/file3.txt''"
  by (simp_all add: createIgnoreInstance_def allIgnoresOf_def gitignorePatterns_def entriesA_def
      defaultIgnores_def ignores_eval)

lemma scanA_items:
  "concat (map (entryNodes lc ''/work/proj'' (optionsAt ''/work/proj'')
                  (createIgnoreInstance (FsDir True entriesA)) 0) entriesA)
   = [FileNode ''file1.txt'' ''file1.txt'' False None 0,
      FileNode ''file2.txt'' ''file2.txt'' False None 0,
      FileNode ''subdir'' ''subdir'' True
        (Some [FileNode ''file3.txt'' ''subdir/file3.txt'' False None 1]) 0]"
  using igA_values
  by (simp add: entriesA_def scanDirectory_fst optionsAt_simps entryNodes_def relativeOf_base
      relativeOf_sub startsWith_def array_sort_def del: scanDirectory.simps)

lemma scanA_any:
  "\<exists>rest. map name (fst (scanDirectory lc ''/work/proj'' (FsDir True entriesA)
                            (optionsAt ''/work/proj'')
                            (createIgnoreInstance (FsDir True entriesA)) 0))
           = ''subdir'' # rest \<and> set rest = {''file1.txt'', ''file2.txt''}"
  unfolding scanDirectory_fst [OF optionsAt_simps(4)] scanA_items
  by (auto simp: array_sort_def compareNodes_def)

lemma lcmp_file1_file2: "lcmp ''file1.txt'' ''file2.txt'' = - 1"
  by (simp add: lcmp_def)

lemma scanA:
  "fst (scanDirectory lcmp ''/work/proj'' (FsDir True entriesA) (optionsAt ''/work/proj'')
          (createIgnoreInstance (FsDir True entriesA)) 0)
   = [FileNode ''subdir'' ''subdir'' True
        (Some [FileNode ''file3.txt'' ''subdir/file3.txt'' False None 1]) 0,
      FileNode ''file1.txt'' ''file1.txt'' False None 0,
      FileNode ''file2.txt'' ''file2.txt'' False None 0]"
  unfolding scanDirectory_fst [OF optionsAt_simps(4)] scanA_items
  by (simp add: array_sort_def compareNodes_def lcmp_file1_file2)

lemma worldOf_simps:
  "resolve (worldOf es) p = ''/work/'' @ p"
  "lookup (worldOf es) ''/work/proj'' = Some (FsDir True es)"
  "localeCompare (worldOf es) = lcmp"
  by (simp_all add: worldOf_def)

lemma basename_proj: "path_basename ''/work/proj'' = ''proj''"
  by (simp add: path_basename_def)

section \<open>Lemmas on the argument translator\<close>

lemmas parseInt_eval = parseInt_def isWhiteSpace_def isRadixDigit_def digitValue_def digitsValue_def

lemma parseInt_empty: "parseInt [] = None"
  by (simp add: parseInt_def)

lemma parseTreeArgsLoop_done:
  "\<not> i < length args \<Longrightarrow> parseTreeArgsLoop args i st = st"
  by (cases st) (simp add: parseTreeArgsLoop.simps)

lemma parseTreeArgsLoop_step:
  "i < length args \<Longrightarrow>
   parseTreeArgsLoop args i (targetPath, options) =
     (if args ! i = ''-L'' \<and> i + 1 < length args then
        (case parseInt (args ! (i + 1)) of
           Some depth \<Rightarrow>
             parseTreeArgsLoop args (i + 1 + 1) (targetPath, options\<lparr>maxDepth := Some depth\<rparr>)
         | None \<Rightarrow> parseTreeArgsLoop args (i + 1) (targetPath, options))
      else if args ! i = ''-a'' \<or> args ! i = ''--all'' then
        parseTreeArgsLoop args (i + 1) (targetPath, options\<lparr>showHidden := Some True\<rparr>)
      else if startsWith (args ! i) ''-L'' then
        (case parseInt (drop 2 (args ! i)) of
           Some depth \<Rightarrow>
             parseTreeArgsLoop args (i + 1) (targetPath, options\<lparr>maxDepth := Some depth\<rparr>)
         | None \<Rightarrow> parseTreeArgsLoop args (i + 1) (targetPath, options))
      else if \<not> startsWith (args ! i) ''-'' then
        parseTreeArgsLoop args (i + 1) (args ! i, options)
      else parseTreeArgsLoop args (i + 1) (targetPath, options))"
  by (subst parseTreeArgsLoop.simps) (simp add: Let_def)

lemma parseTreeArgsLoop_translate:
  "parseTreeArgsLoop args i st = translate (drop i args) st"
proof (induction "length args - i" arbitrary: i st rule: less_induct)
  case less
  obtain targetPath options where st: "st = (targetPath, options)" by (cases st)
  show ?case
  proof (cases "i < length args")
    case False
    then show ?thesis by (simp add: parseTreeArgsLoop_done)
  next
    case True
    then have d0: "drop i args = args ! i # drop (i + 1) args"
      by (simp add: Cons_nth_drop_Suc)
    have IH1: "\<And>st'. parseTreeArgsLoop args (Suc i) st' = translate (drop (Suc i) args) st'"
      using less [of "Suc i"] True by simp
    show ?thesis
    proof (cases "i + 1 < length args")
      case False
      with True have d1: "drop i args = [args ! i]" using d0 by simp
      from False True have e: "drop (Suc i) args = []" by simp
      from False show ?thesis
        unfolding st d1
        by (simp add: parseTreeArgsLoop_step [OF True] IH1 e startsWith_def parseInt_empty
            split: option.splits)
    next
      case T2: True
      define nxt where "nxt = args ! Suc i"
      define rest where "rest = drop (Suc (Suc i)) args"
      have n: "args ! Suc i = nxt" and r: "drop (Suc (Suc i)) args = rest"
        by (simp_all add: nxt_def rest_def)
      from T2 have d2: "drop (Suc i) args = nxt # rest"
        by (simp add: nxt_def rest_def Cons_nth_drop_Suc)
      have IH2: "\<And>st'. parseTreeArgsLoop args (Suc (Suc i)) st' = translate rest st'"
        using less [of "Suc (Suc i)"] T2 by (simp add: r)
      have d1: "drop i args = args ! i # nxt # rest"
        using d0 d2 by simp
      from T2 show ?thesis
        unfolding st d1
        by (simp add: parseTreeArgsLoop_step [OF True] IH1 IH2 d2 n startsWith_def
            split: option.splits)
    qed
  qed
qed

lemma parseTreeArgs_translate: "parseTreeArgs args = translate args (''.'', initialOptions)"
  by (simp add: parseTreeArgs_def parseTreeArgsLoop_translate)


lemma parseInt_negative: "parseInt t = Some d \<Longrightarrow> d < 0 \<Longrightarrow> CHR ''-'' \<in> set t"
proof -
  assume p: "parseInt t = Some d" and neg: "d < 0"
  let ?S = "dropWhile isWhiteSpace t"
  have "?S \<noteq> [] \<and> hd ?S = CHR ''-''"
  proof (rule ccontr)
    assume "\<not> (?S \<noteq> [] \<and> hd ?S = CHR ''-'')"
    with p have "0 \<le> d"
      by (auto simp: parseInt_def Let_def split: if_splits)
    with neg show False by simp
  qed
  then have "CHR ''-'' \<in> set ?S" by (metis hd_in_set)
  then show ?thesis by (metis set_dropWhileD)
qed

lemma depthSource_mono: "depthSource toks d \<Longrightarrow> set toks \<subseteq> set toks' \<Longrightarrow> depthSource toks' d"
  unfolding depthSource_def by blast

lemma depthSource_next: "parseInt t = Some d \<Longrightarrow> t \<in> set toks \<Longrightarrow> depthSource toks d"
  unfolding depthSource_def using parseInt_negative by blast

lemma depthSource_suffix:
  "parseInt (drop 2 a) = Some d \<Longrightarrow> prefix ''-L'' a \<Longrightarrow> a \<in> set toks \<Longrightarrow> depthSource toks d"
  unfolding depthSource_def using parseInt_negative by blast

lemma depth_or_mono:
  "P \<or> depthSource ts d \<Longrightarrow> set ts \<subseteq> set ts' \<Longrightarrow> P \<or> depthSource ts' d"
  using depthSource_mono by blast

lemma depth_set_here:
  assumes "maxDepth (snd (p, opts\<lparr>maxDepth := Some n\<rparr>)) = Some d \<or> depthSource ts d"
    and "set ts \<subseteq> set ts'" and "depthSource ts' n"
  shows "maxDepth (snd (p, opts)) = Some d \<or> depthSource ts' d"
proof -
  from assms(1) consider "n = d" | "depthSource ts d" by auto
  then show ?thesis
  proof cases
    case 1
    with assms(3) show ?thesis by simp
  next
    case 2
    with assms(2) show ?thesis by (blast intro: depthSource_mono)
  qed
qed

lemma translate_maxDepth:
  "maxDepth (snd (translate toks st)) = Some d \<Longrightarrow>
   maxDepth (snd st) = Some d \<or> depthSource toks d"
proof (induction toks st rule: translate.induct)
  case (1 st)
  then show ?case by simp
next
  case (2 tok p opts)
  show ?case
  proof (cases "tok = ''-a'' \<or> tok = ''--all''")
    case True
    with "2.prems" show ?thesis by auto
  next
    case na: False
    show ?thesis
    proof (cases "prefix ''-L'' tok")
      case pL: True
      show ?thesis
      proof (cases "parseInt (drop 2 tok)")
        case None
        with na pL "2.prems" show ?thesis by simp
      next
        case (Some n)
        with pL have "depthSource [tok] n" by (simp add: depthSource_suffix)
        moreover from Some na pL "2.prems" have "n = d \<or> maxDepth opts = Some d" by simp
        ultimately show ?thesis by auto
      qed
    next
      case False
      with na "2.prems" show ?thesis by (simp split: if_splits)
    qed
  qed
next
  case (3 tok nxt toks p opts)
  have sub1: "set (nxt # toks) \<subseteq> set (tok # nxt # toks)"
    and sub2: "set toks \<subseteq> set (tok # nxt # toks)" by auto
  show ?case
  proof (cases "tok = ''-L''")
    case L: True
    show ?thesis
    proof (cases "parseInt nxt")
      case None
      with L "3.prems" have "maxDepth (snd (translate (nxt # toks) (p, opts))) = Some d"
        by simp
      from depth_or_mono [OF "3.IH"(1) [OF L None this] sub1] show ?thesis .
    next
      case (Some n)
      with L "3.prems"
      have "maxDepth (snd (translate toks (p, opts\<lparr>maxDepth := Some n\<rparr>))) = Some d"
        by simp
      moreover from Some have "depthSource (tok # nxt # toks) n"
        by (simp add: depthSource_next)
      ultimately show ?thesis
        using depth_set_here [OF "3.IH"(2) [OF L Some] sub2] by blast
    qed
  next
    case nL: False
    show ?thesis
    proof (cases "tok = ''-a'' \<or> tok = ''--all''")
      case True
      with nL "3.prems"
      have "maxDepth (snd (translate (nxt # toks) (p, opts\<lparr>showHidden := Some True\<rparr>))) = Some d"
        by simp
      from depth_or_mono [OF "3.IH"(3) [OF nL True this] sub1] show ?thesis by simp
    next
      case na: False
      show ?thesis
      proof (cases "prefix ''-L'' tok")
        case pL: True
        show ?thesis
        proof (cases "parseInt (drop 2 tok)")
          case None
          with nL na pL "3.prems"
          have "maxDepth (snd (translate (nxt # toks) (p, opts))) = Some d" by simp
          from depth_or_mono [OF "3.IH"(4) [OF nL na pL None this] sub1] show ?thesis .
        next
          case (Some n)
          with nL na pL "3.prems"
          have "maxDepth (snd (translate (nxt # toks) (p, opts\<lparr>maxDepth := Some n\<rparr>))) = Some d"
            by simp
          moreover from Some pL have "depthSource (tok # nxt # toks) n"
            by (simp add: depthSource_suffix)
          ultimately show ?thesis
            using depth_set_here [OF "3.IH"(5) [OF nL na pL Some] sub1] by blast
        qed
      next
        case npL: False
        show ?thesis
        proof (cases "prefix ''-'' tok")
          case True
          with nL na npL "3.prems"
          have "maxDepth (snd (translate (nxt # toks) (p, opts))) = Some d" by simp
          from depth_or_mono [OF "3.IH"(7) [OF nL na npL _ this] sub1] True show ?thesis
            by simp
        next
          case False
          with nL na npL "3.prems"
          have "maxDepth (snd (translate (nxt # toks) (tok, opts))) = Some d" by simp
          from depth_or_mono [OF "3.IH"(6) [OF nL na npL False this] sub1] show ?thesis
            by simp
        qed
      qed
    qed
  qed
qed

section \<open>Claims\<close>

text \<open>
  C2. On a forward-slash-normalized relative path (no backslash left to rewrite), the
  ignore predicate is true exactly when some pattern of the list matches under the
  three-case rule of the specification: a pattern ending in \<open>/**\<close> matches when the path is
  the prefix or starts with the prefix and a slash; another pattern containing a slash
  matches when it occurs in the path as a substring; any other pattern matches when it
  equals one of the slash-delimited segments of the path. Hence the result is the same
  for every permutation of the pattern list.
\<close>

theorem C2_ignores_three_case_rule:
  assumes "CHR 0x5C \<notin> set p"
  shows "(ignores allIgnores p \<longleftrightarrow> (\<exists>pat \<in> set allIgnores. spec_rule pat p))
       \<and> (mset allIgnores' = mset allIgnores \<longrightarrow> ignores allIgnores' p = ignores allIgnores p)"
proof -
  have "mset allIgnores' = mset allIgnores \<Longrightarrow> set allIgnores' = set allIgnores"
    by (rule mset_eq_setD)
  with assms show ?thesis
    by (auto simp: ignores_iff normalizePath_id)
qed

theorem C2_ignores_three_case_rule_witness:
  "CHR 0x5C \<notin> set ''src/node_modules/x.js''
   \<and> ignores [''build/**'', ''node_modules''] ''src/node_modules/x.js''
   \<and> (\<exists>pat \<in> set [''build/**'', ''node_modules'']. spec_rule pat ''src/node_modules/x.js'')
   \<and> ignores [''node_modules'', ''build/**''] ''src/node_modules/x.js''"
proof -
  have h: "CHR 0x5C \<notin> set ''src/node_modules/x.js''" by simp
  have m: "mset [''node_modules'', ''build/**''] = mset [''build/**'', ''node_modules'']"
    by simp
  have i: "ignores [''build/**'', ''node_modules''] ''src/node_modules/x.js''"
    by (simp add: ignores_def normalizePath_def patternMatches_def endsWith_def
        startsWith_def suffix_to_prefix)
  from C2_ignores_three_case_rule [OF h, of "[''build/**'', ''node_modules'']"
      "[''node_modules'', ''build/**'']"] m i h
  show ?thesis by blast
qed

text \<open>
  C7, as amended. \<open>parseTreeArgs\<close> is the left-to-right walk over the tokens with one token
  of lookahead: \<open>-L\<close> followed by a token that parses as an integer sets \<open>maxDepth\<close> to it
  and consumes both tokens; when that token is malformed or missing, \<open>maxDepth\<close> is not set
  and the lookahead token is scanned next; \<open>-a\<close> and \<open>--all\<close> set \<open>showHidden\<close>; a scanned
  token not starting with \<open>-\<close> becomes the path, the last one winning; a token starting
  with \<open>-L\<close> whose remaining text parses as an integer sets \<open>maxDepth\<close> to it; every other
  token starting with \<open>-\<close> is ignored. The defaults are path \<open>.\<close> and \<open>showHidden = false\<close>,
  and the arguments \<open>-L 2 --noreport\<close> give \<open>maxDepth = 2\<close> and path \<open>.\<close>.
\<close>

theorem C7_parseTreeArgs_token_walk:
  "parseTreeArgs args = translate args (''.'', initialOptions)
   \<and> showHidden initialOptions = Some False \<and> maxDepth initialOptions = None
   \<and> parseTreeArgs [''-L'', ''2'', ''--noreport'']
       = (''.'', initialOptions\<lparr>maxDepth := Some 2\<rparr>)"
proof -
  have "parseInt ''2'' = Some 2" by (simp add: parseInt_eval)
  moreover have "parseInt (drop 2 ''--noreport'') = None" by (simp add: parseInt_eval)
  ultimately show ?thesis
    by (simp add: parseTreeArgs_translate initialOptions_def)
qed

text \<open>
  C7 as stated fails: the token \<open>-L3\<close> starts with \<open>-\<close> and is none of \<open>-L\<close>, \<open>-a\<close>, \<open>--all\<close>,
  yet it is not ignored: it sets \<open>maxDepth\<close> to 3.
\<close>

theorem C7_dash_L3_not_ignored:
  "prefix ''-'' ''-L3'' \<and> ''-L3'' \<noteq> ''-L'' \<and> ''-L3'' \<noteq> ''-a'' \<and> ''-L3'' \<noteq> ''--all''
   \<and> maxDepth (snd (parseTreeArgs [])) = None
   \<and> maxDepth (snd (parseTreeArgs [''-L3''])) = Some 3"
proof -
  have "parseInt (drop 2 ''-L3'') = Some 3" by (simp add: parseInt_eval)
  then show ?thesis
    by (simp add: parseTreeArgs_translate initialOptions_def)
qed

text \<open>
  C9, as amended. Whenever the options returned by \<open>parseTreeArgs\<close> set \<open>maxDepth\<close>, its
  value is the integer \<open>parseInt\<close> reads from an argument token or from the text after
  \<open>-L\<close> in a single token; it can be negative, and then that text has a minus sign.
\<close>

theorem C9_maxDepth_is_parsed_integer:
  assumes "maxDepth (snd (parseTreeArgs args)) = Some d"
  shows "\<exists>t. (t \<in> set args \<or> (\<exists>a \<in> set args. prefix ''-L'' a \<and> t = drop 2 a))
             \<and> parseInt t = Some d \<and> (d < 0 \<longrightarrow> CHR ''-'' \<in> set t)"
proof -
  from assms have "maxDepth (snd (translate args (''.'', initialOptions))) = Some d"
    by (simp add: parseTreeArgs_translate)
  then have "maxDepth (snd (''.'', initialOptions)) = Some d \<or> depthSource args d"
    by (rule translate_maxDepth)
  then have "depthSource args d" by (simp add: initialOptions_def)
  then show ?thesis by (simp add: depthSource_def)
qed

theorem C9_maxDepth_is_parsed_integer_witness:
  "maxDepth (snd (parseTreeArgs [''-L'', ''7''])) = Some 7
   \<and> (\<exists>t. (t \<in> set [''-L'', ''7'']
             \<or> (\<exists>a \<in> set [''-L'', ''7'']. prefix ''-L'' a \<and> t = drop 2 a))
           \<and> parseInt t = Some 7 \<and> ((7::int) < 0 \<longrightarrow> CHR ''-'' \<in> set t))"
proof -
  have "parseInt ''7'' = Some 7" by (simp add: parseInt_eval)
  then have h: "maxDepth (snd (parseTreeArgs [''-L'', ''7''])) = Some 7"
    by (simp add: parseTreeArgs_translate initialOptions_def)
  from C9_maxDepth_is_parsed_integer [OF h] h show ?thesis by blast
qed

text \<open>
  C9 as stated fails: the arguments \<open>-L -5\<close> set \<open>maxDepth\<close> to the negative integer \<open>-5\<close>.
\<close>

theorem C9_negative_maxDepth:
  "maxDepth (snd (parseTreeArgs [''-L'', ''-5''])) = Some (- 5) \<and> \<not> (0::int) \<le> - 5"
proof -
  have "parseInt ''-5'' = Some (- 5)" by (simp add: parseInt_eval)
  then show ?thesis
    by (simp add: parseTreeArgs_translate initialOptions_def)
qed

text \<open>
  C3. When \<open>options.maxDepth\<close> is defined: a call of \<open>scanDirectory\<close> with
  \<open>currentLevel >= maxDepth\<close> returns the empty sequence and makes no file system call
  (the directory is not read); every node of the result, at any depth, has
  \<open>level <= maxDepth\<close>; a node at the deepest level that is listed (\<open>maxDepth - 1\<close>) has
  no children in the output; and a retained directory at that level still appears as a
  node, with an empty child list, whatever the directory contains.
\<close>

theorem C3_depth_limit:
  assumes "maxDepth options = Some m"
  shows "(m \<le> int currentLevel \<longrightarrow>
            scanDirectory lc dirPath d options ig currentLevel = ([], []))
       \<and> (\<forall>n \<in> set (forest_nodes (fst (scanDirectory lc dirPath d options ig currentLevel))).
            int (level n) \<le> m
            \<and> (int (level n) = m - 1 \<longrightarrow> children n = None \<or> children n = Some []))
       \<and> (int currentLevel = m - 1 \<and> (nm, FsDir r es) \<in> set entries
            \<and> \<not> (showHidden options \<noteq> Some True \<and> startsWith nm ''.'')
            \<and> \<not> ig (relativeOf options dirPath nm) \<longrightarrow>
            FileNode nm (relativeOf options dirPath nm) True (Some []) currentLevel
            \<in> set (fst (scanDirectory lc dirPath (FsDir True entries) options ig currentLevel)))"
proof (intro conjI impI ballI)
  assume "m \<le> int currentLevel"
  with assms have "depthReached options currentLevel" by (simp add: depthReached_def)
  then show "scanDirectory lc dirPath d options ig currentLevel = ([], [])"
    by (rule scanDirectory_depth)
next
  fix n
  assume "n \<in> set (forest_nodes (fst (scanDirectory lc dirPath d options ig currentLevel)))"
  with scan_emitted(1) [of lc dirPath d options ig currentLevel]
  have e: "emitted lc options ig n" by blast
  with assms show "int (level n) \<le> m" by (simp add: emitted_def depthReached_def)
  {
    assume "int (level n) = m - 1"
    with assms have "depthReached options (level n + 1)" by (simp add: depthReached_def)
    with e show "children n = None \<or> children n = Some []"
      by (auto simp: emitted_def split: option.splits)
  }
next
  assume a: "int currentLevel = m - 1 \<and> (nm, FsDir r es) \<in> set entries
            \<and> \<not> (showHidden options \<noteq> Some True \<and> startsWith nm ''.'')
            \<and> \<not> ig (relativeOf options dirPath nm)"
  with assms have nd: "\<not> depthReached options currentLevel"
    and d1: "depthReached options (currentLevel + 1)"
    by (simp_all add: depthReached_def)
  from a have "(nm, FsDir r es) \<in> set entries"
    and "\<not> (showHidden options \<noteq> Some True \<and> startsWith nm ''.'')"
    and "\<not> ig (relativeOf options dirPath nm)" by blast+
  from entry_emitted [where ig = ig and dirPath = dirPath and lc = lc, OF this nd] d1
  show "FileNode nm (relativeOf options dirPath nm) True (Some []) currentLevel
        \<in> set (fst (scanDirectory lc dirPath (FsDir True entries) options ig currentLevel))"
    by (simp add: scanDirectory_depth del: scanDirectory.simps)
qed


theorem C3_depth_limit_witness:
  "maxDepth (optionsC (Some 1) None) = Some 1
   \<and> scanDirectory lcmp ''/work/proj/level1'' (FsDir True [(''level2'', FsDir True [])])
         (optionsC (Some 1) None) (createIgnoreInstance (FsDir True entriesC)) 1 = ([], [])
   \<and> FileNode ''level1'' ''level1'' True (Some []) 0
       \<in> set (fst (scanDirectory lcmp ''/work/proj'' (FsDir True entriesC) (optionsC (Some 1) None)
                      (createIgnoreInstance (FsDir True entriesC)) 0))"
proof -
  have h: "maxDepth (optionsC (Some 1) None) = Some 1" by (simp add: optionsC_simps)
  have e: "(''level1'', FsDir True [(''level2'', FsDir True [(''deep.txt'', FsFile (Some ''y''))])])
           \<in> set entriesC"
    by (simp add: entriesC_def)
  have r: "relativeOf (optionsC (Some 1) None) ''/work/proj'' ''level1'' = ''level1''"
    by (simp add: relativeOfC)
  have s: "\<not> startsWith ''level1'' ''.''" by (simp add: startsWith_def)
  from C3_depth_limit [OF h, of 1 lcmp "''/work/proj/level1''"
      "FsDir True [(''level2'', FsDir True [])]" "createIgnoreInstance (FsDir True entriesC)"]
  have a: "scanDirectory lcmp ''/work/proj/level1'' (FsDir True [(''level2'', FsDir True [])])
         (optionsC (Some 1) None) (createIgnoreInstance (FsDir True entriesC)) 1 = ([], [])"
    by simp
  from C3_depth_limit [OF h, of 0 lcmp "''/work/proj''" _
      "createIgnoreInstance (FsDir True entriesC)" "''level1''" True
      "[(''level2'', FsDir True [(''deep.txt'', FsFile (Some ''y''))])]" entriesC]
    e s igC_values(1)
  have b: "FileNode ''level1'' ''level1'' True (Some []) 0
       \<in> set (fst (scanDirectory lcmp ''/work/proj'' (FsDir True entriesC) (optionsC (Some 1) None)
                      (createIgnoreInstance (FsDir True entriesC)) 0))"
    unfolding r by simp
  from h a b show ?thesis by blast
qed

text \<open>
  C6. \<open>generateTree\<close> throws exactly when the resolved target path does not exist or is
  not a directory, with the message \<open>Path does not exist: <targetPath>\<close> or
  \<open>Path is not a directory: <targetPath>\<close>; the failing call has made no traversal call
  (its log is empty) and returns no output. A subdirectory that cannot be read yields
  the empty list instead of an error, and its node is listed with no children.
\<close>

theorem C6_failure_surface:
  "((\<exists>msg. fst (generateTree w targetPath options) = Inl msg)
      \<longleftrightarrow> lookup w (resolve w targetPath) = None
          \<or> (\<exists>c. lookup w (resolve w targetPath) = Some (FsFile c)))
   \<and> (lookup w (resolve w targetPath) = None \<longrightarrow>
        generateTree w targetPath options = (Inl (''Path does not exist: '' @ targetPath), []))
   \<and> (lookup w (resolve w targetPath) = Some (FsFile c) \<longrightarrow>
        generateTree w targetPath options
        = (Inl (''Path is not a directory: '' @ targetPath), []))
   \<and> fst (scanDirectory lc dirPath (FsDir False es) opts ig currentLevel) = []
   \<and> ((nm, FsDir False es) \<in> set entries
        \<and> \<not> (showHidden opts \<noteq> Some True \<and> startsWith nm ''.'')
        \<and> \<not> ig (relativeOf opts dirPath nm) \<and> \<not> depthReached opts currentLevel \<longrightarrow>
        FileNode nm (relativeOf opts dirPath nm) True (Some []) currentLevel
        \<in> set (fst (scanDirectory lc dirPath (FsDir True entries) opts ig currentLevel)))"
proof (intro conjI impI)
  show "(\<exists>msg. fst (generateTree w targetPath options) = Inl msg)
      \<longleftrightarrow> lookup w (resolve w targetPath) = None
          \<or> (\<exists>c. lookup w (resolve w targetPath) = Some (FsFile c))"
  proof (cases "lookup w (resolve w targetPath)")
    case None
    then show ?thesis by (simp add: generateTree_def)
  next
    case (Some t)
    show ?thesis
    proof (cases t)
      case (FsFile c)
      with Some show ?thesis by (simp add: generateTree_def)
    next
      case (FsDir r es)
      with Some generateTree_output [of w targetPath r es options] show ?thesis
        by (simp del: scanDirectory.simps)
    qed
  qed
next
  assume "lookup w (resolve w targetPath) = None"
  then show "generateTree w targetPath options
             = (Inl (''Path does not exist: '' @ targetPath), [])"
    by (simp add: generateTree_def)
next
  assume "lookup w (resolve w targetPath) = Some (FsFile c)"
  then show "generateTree w targetPath options
             = (Inl (''Path is not a directory: '' @ targetPath), [])"
    by (simp add: generateTree_def)
next
  show "fst (scanDirectory lc dirPath (FsDir False es) opts ig currentLevel) = []"
    by (simp add: scanDirectory_cannot_list del: scanDirectory.simps)
next
  assume a: "(nm, FsDir False es) \<in> set entries
        \<and> \<not> (showHidden opts \<noteq> Some True \<and> startsWith nm ''.'')
        \<and> \<not> ig (relativeOf opts dirPath nm) \<and> \<not> depthReached opts currentLevel"
  then have "(nm, FsDir False es) \<in> set entries"
    and "\<not> (showHidden opts \<noteq> Some True \<and> startsWith nm ''.'')"
    and "\<not> ig (relativeOf opts dirPath nm)" and "\<not> depthReached opts currentLevel"
    by blast+
  from entry_emitted [where ig = ig and dirPath = dirPath and lc = lc, OF this]
  have "FileNode nm (relativeOf opts dirPath nm) True
          (Some (fst (scanDirectory lc (path_join dirPath nm) (FsDir False es) opts ig
                        (currentLevel + 1)))) currentLevel
        \<in> set (fst (scanDirectory lc dirPath (FsDir True entries) opts ig currentLevel))"
    by (simp del: scanDirectory.simps)
  moreover have "fst (scanDirectory lc (path_join dirPath nm) (FsDir False es) opts ig
                        (currentLevel + 1)) = []"
    by (simp add: scanDirectory_cannot_list del: scanDirectory.simps)
  ultimately
  show "FileNode nm (relativeOf opts dirPath nm) True (Some []) currentLevel
        \<in> set (fst (scanDirectory lc dirPath (FsDir True entries) opts ig currentLevel))"
    by (simp only:)
qed

theorem C6_failure_surface_witness:
  "generateTree (worldOf entriesC) ''missing'' noOptions
     = (Inl ''Path does not exist: missing'', [])
   \<and> generateTree (worldOf entriesC) ''notes.txt'' noOptions
     = (Inl ''Path is not a directory: notes.txt'', [])
   \<and> (\<nexists>msg. fst (generateTree (worldOf entriesC) ''proj'' noOptions) = Inl msg)
   \<and> FileNode ''locked'' ''locked'' True (Some []) 0
       \<in> set (fst (scanDirectory lcmp ''/work/proj'' (FsDir True entriesC) (optionsC None None)
                      (createIgnoreInstance (FsDir True entriesC)) 0))"
proof -
  have l1: "lookup (worldOf entriesC) (resolve (worldOf entriesC) ''missing'') = None"
    by (simp add: worldOf_def)
  have l2: "lookup (worldOf entriesC) (resolve (worldOf entriesC) ''notes.txt'')
            = Some (FsFile (Some ''notes''))"
    by (simp add: worldOf_def)
  have l3: "lookup (worldOf entriesC) (resolve (worldOf entriesC) ''proj'')
            = Some (FsDir True entriesC)"
    by (simp add: worldOf_def)
  have e: "(''locked'', FsDir False [(''inside.txt'', FsFile (Some ''x''))]) \<in> set entriesC"
    by (simp add: entriesC_def)
  have r: "relativeOf (optionsC None None) ''/work/proj'' ''locked'' = ''locked''"
    by (simp add: relativeOfC)
  have s: "\<not> startsWith ''locked'' ''.''" by (simp add: startsWith_def)
  have d: "\<not> depthReached (optionsC None None) 0" by (simp add: optionsC_simps)
  from C6_failure_surface [of "worldOf entriesC" "''missing''" noOptions] l1
  have a: "generateTree (worldOf entriesC) ''missing'' noOptions
     = (Inl ''Path does not exist: missing'', [])" by simp
  from C6_failure_surface [of "worldOf entriesC" "''notes.txt''" noOptions "Some ''notes''"] l2
  have b: "generateTree (worldOf entriesC) ''notes.txt'' noOptions
     = (Inl ''Path is not a directory: notes.txt'', [])" by simp
  from C6_failure_surface [of "worldOf entriesC" "''proj''" noOptions] l3
  have c: "\<nexists>msg. fst (generateTree (worldOf entriesC) ''proj'' noOptions) = Inl msg" by simp
  from C6_failure_surface [of _ _ _ _ lcmp "''/work/proj''"
      "[(''inside.txt'', FsFile (Some ''x''))]" "optionsC None None"
      "createIgnoreInstance (FsDir True entriesC)" 0 "''locked''" entriesC]
    e s d igC_values(4)
  have "FileNode ''locked'' ''locked'' True (Some []) 0
       \<in> set (fst (scanDirectory lcmp ''/work/proj'' (FsDir True entriesC) (optionsC None None)
                      (createIgnoreInstance (FsDir True entriesC)) 0))"
    unfolding r by simp
  with a b c show ?thesis by blast
qed

text \<open>
  C1. The claim is that an entry whose relative path matches a pattern of the defaults or
  of the root \<open>.gitignore\<close> is absent from the output of \<open>generateTree\<close> with its subtree,
  and that a \<open>.gitignore\<close> with the lines \<open>ignored_file.txt\<close> and \<open>ignored_dir/\<close> leaves no
  line for \<open>ignored_file.txt\<close>, for \<open>ignored_dir\<close> or for anything below it. On that
  directory the pattern list holds \<open>ignored_dir/\<close>, which the substring rule matches
  against \<open>ignored_dir/secret.txt\<close> but not against \<open>ignored_dir\<close>: the output has a line
  for \<open>ignored_dir\<close>.
\<close>

theorem C1_ignored_dir_is_listed:
  "allIgnoresOf (FsDir True entriesB)
     = [''.git'', ''.DS_Store'', ''node_modules'', ''ignored_file.txt'', ''ignored_dir/'']
   \<and> fst (generateTree (worldOf entriesB) ''proj'' noOptions)
     = Inr (''proj'' @ NL @ TEE @ ''ignored_dir'' @ NL @ ELBOW @ ''visible_file.txt'' @ NL)"
proof -
  have l: "lookup (worldOf entriesB) (resolve (worldOf entriesB) ''proj'')
           = Some (FsDir True entriesB)"
    by (simp add: worldOf_simps)
  have r: "resolve (worldOf entriesB) ''proj'' = ''/work/proj''"
    by (simp add: worldOf_simps)
  have "fst (generateTree (worldOf entriesB) ''proj'' noOptions)
     = Inr (''proj'' @ NL @ TEE @ ''ignored_dir'' @ NL @ ELBOW @ ''visible_file.txt'' @ NL)"
    unfolding generateTree_output [OF l] r worldOf_simps(3) optionsAt_def [symmetric] scanB
      basename_proj
    by (simp add: linePrefix_def)
  with ignB show ?thesis by simp
qed

text \<open>
  C4. At every level of the scan result, all directory nodes precede all file nodes and,
  among the directories and among the files, names ascend under \<open>localeCompare\<close> (taken
  as a consistent comparator); the scan of a directory holding \<open>file1.txt\<close>, \<open>file2.txt\<close>
  and \<open>subdir\<close> lists \<open>subdir\<close> first.
\<close>

theorem C4_levels_sorted:
  assumes "consistent lc"
  shows "level_sorted lc (fst (scanDirectory lc dirPath d options ig currentLevel))
       \<and> (\<forall>n \<in> set (forest_nodes (fst (scanDirectory lc dirPath d options ig currentLevel))).
            \<forall>cs. children n = Some cs \<longrightarrow> level_sorted lc cs)
       \<and> (\<exists>rest. map name (fst (scanDirectory lc ''/work/proj'' (FsDir True entriesA)
                                  (optionsAt ''/work/proj'')
                                  (createIgnoreInstance (FsDir True entriesA)) 0))
                  = ''subdir'' # rest \<and> set rest = {''file1.txt'', ''file2.txt''})"
proof (intro conjI ballI allI impI)
  from scanDirectory_sorted_output [of lc dirPath d options ig currentLevel]
  obtain items where "fst (scanDirectory lc dirPath d options ig currentLevel)
                      = array_sort (compareNodes lc) items" by blast
  with level_sorted_array_sort [OF assms]
  show "level_sorted lc (fst (scanDirectory lc dirPath d options ig currentLevel))"
    by simp
next
  fix n cs
  assume "n \<in> set (forest_nodes (fst (scanDirectory lc dirPath d options ig currentLevel)))"
    and cs: "children n = Some cs"
  with scan_emitted(1) [of lc dirPath d options ig currentLevel]
  have "emitted lc options ig n" by blast
  with cs obtain items where "cs = array_sort (compareNodes lc) items"
    by (auto simp: emitted_def)
  with level_sorted_array_sort [OF assms] show "level_sorted lc cs" by simp
next
  show "\<exists>rest. map name (fst (scanDirectory lc ''/work/proj'' (FsDir True entriesA)
                                  (optionsAt ''/work/proj'')
                                  (createIgnoreInstance (FsDir True entriesA)) 0))
                  = ''subdir'' # rest \<and> set rest = {''file1.txt'', ''file2.txt''}"
    by (rule scanA_any)
qed

theorem C4_levels_sorted_witness:
  "consistent lcmp
   \<and> fst (scanDirectory lcmp ''/work/proj'' (FsDir True entriesA) (optionsAt ''/work/proj'')
          (createIgnoreInstance (FsDir True entriesA)) 0)
     = [FileNode ''subdir'' ''subdir'' True
          (Some [FileNode ''file3.txt'' ''subdir/file3.txt'' False None 1]) 0,
        FileNode ''file1.txt'' ''file1.txt'' False None 0,
        FileNode ''file2.txt'' ''file2.txt'' False None 0]
   \<and> level_sorted lcmp
        (fst (scanDirectory lcmp ''/work/proj'' (FsDir True entriesA) (optionsAt ''/work/proj'')
                (createIgnoreInstance (FsDir True entriesA)) 0))"
  using C4_levels_sorted [OF consistent_lcmp, of "''/work/proj''" "FsDir True entriesA"
      "optionsAt ''/work/proj''" "createIgnoreInstance (FsDir True entriesA)" 0]
    consistent_lcmp scanA
  by blast

text \<open>
  C5. The output of \<open>generateTree\<close> on a directory is the base name of the resolved path
  on a line of its own, followed by one line per node of the scan result in depth-first
  order, each line being the prefix for its ancestors (four spaces under a last sibling,
  a vertical bar and three spaces otherwise), the elbow for a last sibling or the tee
  otherwise, and the node's name; with no retained children the output is the root
  line alone. \<open>formatTree\<close> computes that rendering for every forest and flag list.
\<close>

theorem C5_rendered_output:
  assumes "lookup w (resolve w targetPath) = Some (FsDir r es)"
    and "nodes = fst (scanDirectory (localeCompare w) (resolve w targetPath) (FsDir r es)
                        (options\<lparr>baseDirectory := Some (resolve w targetPath)\<rparr>)
                        (createIgnoreInstance (FsDir r es)) 0)"
  shows "fst (generateTree w targetPath options)
           = Inr (path_basename (resolve w targetPath) @ NL @ render [] nodes)
       \<and> (nodes = [] \<longrightarrow>
            fst (generateTree w targetPath options) = Inr (path_basename (resolve w targetPath) @ NL))
       \<and> formatTree forest flags = render flags forest"
  using generateTree_output [OF assms(1), of options] assms(2)
  by (auto simp: formatTree_render simp del: scanDirectory.simps)

theorem C5_rendered_output_witness:
  "lookup (worldOf entriesA) (resolve (worldOf entriesA) ''proj'') = Some (FsDir True entriesA)
   \<and> fst (generateTree (worldOf entriesA) ''proj'' noOptions)
     = Inr (''proj'' @ NL
            @ TEE @ ''subdir'' @ NL
            @ VBAR @ ELBOW @ ''file3.txt'' @ NL
            @ TEE @ ''file1.txt'' @ NL
            @ ELBOW @ ''file2.txt'' @ NL)"
proof -
  have l: "lookup (worldOf entriesA) (resolve (worldOf entriesA) ''proj'')
           = Some (FsDir True entriesA)"
    by (simp add: worldOf_simps)
  have r: "resolve (worldOf entriesA) ''proj'' = ''/work/proj''"
    by (simp add: worldOf_simps)
  have n: "fst (scanDirectory lcmp ''/work/proj'' (FsDir True entriesA) (optionsAt ''/work/proj'')
          (createIgnoreInstance (FsDir True entriesA)) 0)
        = fst (scanDirectory (localeCompare (worldOf entriesA)) (resolve (worldOf entriesA) ''proj'')
                 (FsDir True entriesA)
                 (noOptions\<lparr>baseDirectory := Some (resolve (worldOf entriesA) ''proj'')\<rparr>)
                 (createIgnoreInstance (FsDir True entriesA)) 0)"
    unfolding r worldOf_simps(3) optionsAt_def ..
  from C5_rendered_output [OF l n]
  have "fst (generateTree (worldOf entriesA) ''proj'' noOptions)
        = Inr (path_basename (resolve (worldOf entriesA) ''proj'') @ NL
               @ render [] (fst (scanDirectory lcmp ''/work/proj'' (FsDir True entriesA)
                                   (optionsAt ''/work/proj'')
                                   (createIgnoreInstance (FsDir True entriesA)) 0)))"
    by blast
  then have "fst (generateTree (worldOf entriesA) ''proj'' noOptions)
     = Inr (''proj'' @ NL
            @ TEE @ ''subdir'' @ NL
            @ VBAR @ ELBOW @ ''file3.txt'' @ NL
            @ TEE @ ''file1.txt'' @ NL
            @ ELBOW @ ''file2.txt'' @ NL)"
    unfolding scanA r basename_proj
    by (simp add: linePrefix_def)
  with l show ?thesis by blast
qed

text \<open>
  C8. Unless \<open>options.showHidden\<close> is true, no node of the scan result, at any depth, has a
  name starting with a dot, and none lies below such an entry; the loop skips such an
  entry before any call of the ignore predicate: the items and the log of calls are
  left as they were.
\<close>

theorem C8_hidden_entries_skipped:
  assumes "showHidden options \<noteq> Some True"
  shows "(\<forall>c \<in> set (name_chains (fst (scanDirectory lc dirPath d options ig currentLevel))).
            \<forall>nm \<in> set c. \<not> startsWith nm ''.'')
       \<and> (startsWith nm ''.'' \<longrightarrow>
            scanEntries lc dirPath ((nm, t) # rest) options ig currentLevel acc
            = scanEntries lc dirPath rest options ig currentLevel acc)"
proof (intro conjI ballI impI)
  fix c nm'
  assume "c \<in> set (name_chains (fst (scanDirectory lc dirPath d options ig currentLevel)))"
    and "nm' \<in> set c"
  from chain_names_emitted [OF this] obtain n
    where "emitted lc options ig n" and "name n = nm'" by blast
  with assms show "\<not> startsWith nm' ''.''" by (simp add: emitted_def)
next
  assume "startsWith nm ''.''"
  with assms show "scanEntries lc dirPath ((nm, t) # rest) options ig currentLevel acc
            = scanEntries lc dirPath rest options ig currentLevel acc"
    by (rule scanEntries_hidden)
qed

theorem C8_hidden_entries_skipped_witness:
  "showHidden (optionsC None None) \<noteq> Some True
   \<and> name_chains (fst (scanDirectory lcmp ''/work/proj'' (FsDir True entriesC)
                         (optionsC None None) (createIgnoreInstance (FsDir True entriesC)) 0))
     = [[''level1''], [''level1'', ''level2''], [''level1'', ''level2'', ''deep.txt''],
        [''locked'']]
   \<and> [''.env''] \<notin> set (name_chains (fst (scanDirectory lcmp ''/work/proj'' (FsDir True entriesC)
                         (optionsC None None) (createIgnoreInstance (FsDir True entriesC)) 0)))"
proof -
  have h: "showHidden (optionsC None None) \<noteq> Some True" by (simp add: optionsC_simps)
  have s: "startsWith ''.env'' ''.''" by (simp add: startsWith_def)
  from C8_hidden_entries_skipped [OF h, of lcmp "''/work/proj''" "FsDir True entriesC"
      "createIgnoreInstance (FsDir True entriesC)" 0] s
  have "[''.env''] \<notin> set (name_chains (fst (scanDirectory lcmp ''/work/proj''
           (FsDir True entriesC) (optionsC None None)
           (createIgnoreInstance (FsDir True entriesC)) 0)))"
    by fastforce
  moreover have "name_chains (fst (scanDirectory lcmp ''/work/proj'' (FsDir True entriesC)
                         (optionsC None None) (createIgnoreInstance (FsDir True entriesC)) 0))
     = [[''level1''], [''level1'', ''level2''], [''level1'', ''level2'', ''deep.txt''],
        [''locked'']]"
    unfolding scanC_default by simp
  ultimately show ?thesis using h by blast
qed

text \<open>
  C10. With \<open>showHidden = true\<close>, no node of the scan result is named \<open>.git\<close>, \<open>.DS_Store\<close> or
  \<open>node_modules\<close>, and none lies below an entry so named; the ignore predicate is then
  called on the relative path of every entry the loop visits.
\<close>

theorem C10_default_ignores_despite_showHidden:
  assumes "showHidden options = Some True"
  shows "(\<forall>c \<in> set (name_chains (fst (scanDirectory lc dirPath d options
                                         (createIgnoreInstance baseNode) currentLevel))).
            \<forall>nm \<in> set c. nm \<notin> {''.git'', ''.DS_Store'', ''node_modules''})
       \<and> (\<exists>items' tr'.
            scanEntries lc dirPath ((nm, t) # rest) options ig currentLevel (items, tr)
            = scanEntries lc dirPath rest options ig currentLevel
                (items', tr @ IgnoreQuery (relativeOf options dirPath nm) # tr'))"
proof (intro conjI ballI)
  fix c nm'
  assume "c \<in> set (name_chains (fst (scanDirectory lc dirPath d options
                                       (createIgnoreInstance baseNode) currentLevel)))"
    and "nm' \<in> set c"
  from chain_names_emitted [OF this] obtain n
    where e: "emitted lc options (createIgnoreInstance baseNode) n" and n: "name n = nm'"
    by blast
  from e obtain dp where p: "path n = relativeOf options dp (name n)"
    and ni: "\<not> createIgnoreInstance baseNode (path n)"
    by (auto simp: emitted_def)
  show "nm' \<notin> {''.git'', ''.DS_Store'', ''node_modules''}"
  proof
    assume "nm' \<in> {''.git'', ''.DS_Store'', ''node_modules''}"
    then have "nm' \<in> set defaultIgnores" by (simp add: defaultIgnores_def)
    from default_names_ignored [OF this, of baseNode options dp] p n ni
    show False by simp
  qed
next
  have nh: "\<not> (showHidden options \<noteq> Some True \<and> startsWith nm ''.'')"
    using assms by simp
  let ?rel = "relativeOf options dirPath nm"
  show "\<exists>items' tr'.
            scanEntries lc dirPath ((nm, t) # rest) options ig currentLevel (items, tr)
            = scanEntries lc dirPath rest options ig currentLevel
                (items', tr @ IgnoreQuery ?rel # tr')"
  proof (cases "ig ?rel")
    case True
    from scanEntries_ignored [where ig = ig and dirPath = dirPath, OF nh True, of lc t rest currentLevel items tr]
    show ?thesis by auto
  next
    case False
    show ?thesis
    proof (cases t)
      case (FsFile c)
      from scanEntries_file [where ig = ig and dirPath = dirPath, OF nh False, of lc c rest currentLevel items tr] FsFile
      show ?thesis by auto
    next
      case (FsDir r es)
      from scanEntries_dir [where ig = ig and dirPath = dirPath, OF nh False, of lc r es rest currentLevel items tr] FsDir
      show ?thesis by auto
    qed
  qed
qed

theorem C10_default_ignores_despite_showHidden_witness:
  "showHidden (optionsC None (Some True)) = Some True
   \<and> name_chains (fst (scanDirectory lcmp ''/work/proj'' (FsDir True entriesC)
                         (optionsC None (Some True))
                         (createIgnoreInstance (FsDir True entriesC)) 0))
     = [[''level1''], [''level1'', ''level2''], [''level1'', ''level2'', ''deep.txt''],
        [''locked''], [''.env'']]
   \<and> [''.git''] \<notin> set (name_chains (fst (scanDirectory lcmp ''/work/proj'' (FsDir True entriesC)
                         (optionsC None (Some True))
                         (createIgnoreInstance (FsDir True entriesC)) 0)))"
proof -
  have h: "showHidden (optionsC None (Some True)) = Some True" by (simp add: optionsC_simps)
  from C10_default_ignores_despite_showHidden [OF h, of lcmp "''/work/proj''"
      "FsDir True entriesC" "FsDir True entriesC" 0]
  have "[''.git''] \<notin> set (name_chains (fst (scanDirectory lcmp ''/work/proj''
           (FsDir True entriesC) (optionsC None (Some True))
           (createIgnoreInstance (FsDir True entriesC)) 0)))"
    by fastforce
  moreover have "name_chains (fst (scanDirectory lcmp ''/work/proj'' (FsDir True entriesC)
                         (optionsC None (Some True))
                         (createIgnoreInstance (FsDir True entriesC)) 0))
     = [[''level1''], [''level1'', ''level2''], [''level1'', ''level2'', ''deep.txt''],
        [''locked''], [''.env'']]"
    unfolding scanC_all by simp
  ultimately show ?thesis using h by blast
qed

end
